theory Spec2Isabelle
  imports Complex_Main "HOL-Library.AList" "HOL-Library.List_Lexorder" "HOL-Library.Char_ord"
begin

section \<open>Reinsurance cessions: openquake/risklib/reinsurance.py\<close>

text \<open>
  The module computes with numpy float arrays. Amounts are modelled as exact reals
  (\<^typ>\<open>real\<close>), arrays as lists, and the in-place updates of the source as functions
  returning the updated arrays. Float rounding error is outside the model; the one
  explicit rounding of the source (\<open>np.round(v, 6)\<close>) is modelled exactly.
\<close>

subsection \<open>Data model\<close>

text \<open>
  A row of \<open>treaty_df (id, type, deductible, limit, code)\<close>; the fields \<open>id\<close> and
  \<open>type\<close> are written \<open>tid\<close> and \<open>ttype\<close>. The type is the string the source compares
  against (\<open>'prop'\<close>, \<open>'wxlr'\<close>, \<open>'catxl'\<close>); the code is the single character
  \<open>BASE183[i]\<close> given to the i-th treaty by \<open>parse\<close>.
\<close>

record treaty =
  tid :: string
  ttype :: string
  deductible :: real
  limit :: real
  code :: char

text \<open>A policy is a dictionary from column names to numbers (flags are 0 or 1).\<close>

type_synonym policy = "string \<rightharpoonup> real"

datatype error = AssertionError | KeyError | IndexError | ValueError

subsection \<open>\<open>apply_treaty\<close> (lines 135-147)\<close>

text \<open>
  One iteration of the loop \<open>for i, ret in np.ndenumerate(retention)\<close>, on the pair
  (cession, retention) of arrays that the source updates in place. Every caller passes
  two arrays of one length (two columns of one matrix, or \<open>np.zeros(len(claim))\<close> and
  the retention of that claim), so index \<open>i\<close> is in range for both.
\<close>

definition treaty_elem ::
  "real \<Rightarrow> real \<Rightarrow> nat \<Rightarrow> real list \<times> real list \<Rightarrow> real list \<times> real list" where
  "treaty_elem deduc capacity i cr =
     (let cession = fst cr; retention = snd cr;
          ret = retention ! i; overmax = ret - deduc
      in if ret > deduc then
           (if overmax > capacity
            then (cession[i := capacity], retention[i := deduc + overmax - capacity])
            else (cession[i := overmax], retention[i := deduc]))
         else (cession, retention))"

definition apply_treaty ::
  "real list \<Rightarrow> real list \<Rightarrow> real \<Rightarrow> real \<Rightarrow> real list \<times> real list" where
  "apply_treaty cession retention deduc capacity =
     fold (treaty_elem deduc capacity) [0..<length retention] (cession, retention)"

text \<open>The loop in closed form: what one entry of each array becomes.\<close>

definition split_ret :: "real \<Rightarrow> real \<Rightarrow> real \<Rightarrow> real" where
  "split_ret deduc capacity r =
     (if r > deduc then (if r - deduc > capacity then deduc + (r - deduc) - capacity else deduc)
      else r)"

definition split_ces :: "real \<Rightarrow> real \<Rightarrow> real \<Rightarrow> real \<Rightarrow> real" where
  "split_ces deduc capacity c r =
     (if r > deduc then (if r - deduc > capacity then capacity else r - deduc) else c)"

subsection \<open>\<open>claim_to_cessions\<close> (lines 150-173)\<close>

text \<open>
  \<open>np.round(v, 6)\<close> multiplies by \<open>10^6\<close>, rounds to the nearest integer with ties
  going to the even one (\<open>np.rint\<close>), and divides by \<open>10^6\<close>.
\<close>

definition rint :: "real \<Rightarrow> int" where
  "rint x = (let f = \<lfloor>x\<rfloor>; d = x - of_int f
             in if d < 1 / 2 then f else if d > 1 / 2 then f + 1
                else if even f then f else f + 1)"

definition round6 :: "real \<Rightarrow> real" where
  "round6 x = of_int (rint (x * 1000000)) / 1000000"

text \<open>The list comprehension \<open>[policy[col] for col in cols]\<close>; a missing key raises.\<close>

fun lookup_all :: "policy \<Rightarrow> string list \<Rightarrow> error + real list" where
  "lookup_all policy [] = Inr []"
| "lookup_all policy (col # cols) =
     (case policy col of None \<Rightarrow> Inl KeyError
      | Some v \<Rightarrow> (case lookup_all policy cols of Inl e \<Rightarrow> Inl e | Inr vs \<Rightarrow> Inr (v # vs)))"

definition prop_cols :: "treaty list \<Rightarrow> string list" where
  "prop_cols treaty_df = map tid (filter (\<lambda>t. ttype t = ''prop'') treaty_df)"

text \<open>
  The dictionary \<open>out\<close> is an association list in insertion order; \<open>out[k] = v\<close> is
  \<^const>\<open>AList.update\<close> (replace in place, or append).
\<close>

type_synonym outdict = "(string \<times> real list) list"

definition prop_step :: "real list \<Rightarrow> string \<times> real \<Rightarrow> outdict \<Rightarrow> outdict" where
  "prop_step claim cf out = AList.update (fst cf) (map (\<lambda>c. c * snd cf) claim) out"

text \<open>
  One iteration of the \<open>wxlr\<close> loop (lines 168-171). \<open>apply_treaty\<close> writes
  \<open>retention[i]\<close> before \<open>cession[i]\<close>; the two updates are stored in that order.
\<close>

definition wxl_step :: "policy \<Rightarrow> nat \<Rightarrow> treaty \<Rightarrow> error + outdict \<Rightarrow> error + outdict" where
  "wxl_step policy n t acc =
     (case acc of Inl e \<Rightarrow> Inl e
      | Inr out \<Rightarrow>
         (let out1 = AList.update (tid t) (replicate n 0) out
          in case policy (tid t) of None \<Rightarrow> Inl KeyError
             | Some p \<Rightarrow>
                 if p \<noteq> 0 then
                   (case (map_of out1 (tid t), map_of out1 ''retention'') of
                      (Some ces, Some ret) \<Rightarrow>
                        (let cr = apply_treaty ces ret (deductible t) (limit t - deductible t)
                         in Inr (AList.update (tid t) (fst cr)
                                  (AList.update ''retention'' (snd cr) out1)))
                    | _ \<Rightarrow> Inl KeyError)
                 else Inr out1))"

definition claim_to_cessions :: "real list \<Rightarrow> policy \<Rightarrow> treaty list \<Rightarrow> error + outdict" where
  "claim_to_cessions claim policy treaty_df =
     (let cols = prop_cols treaty_df
      in case lookup_all policy cols of Inl e \<Rightarrow> Inl e
         | Inr fractions \<Rightarrow>
             if \<not> sum_list fractions \<le> 1 then Inl AssertionError
             else
               (let out0 = [(''retention'', map (\<lambda>c. c * (1 - sum_list fractions)) claim),
                            (''claim'', claim)];
                    out1 = fold (prop_step claim) (zip cols fractions) out0;
                    wxl = filter (\<lambda>t. ttype t = ''wxlr'') treaty_df
                in case fold (wxl_step policy (length claim)) wxl (Inr out1) of Inl e \<Rightarrow> Inl e
                   | Inr out \<Rightarrow> Inr (map (\<lambda>kv. (fst kv, map round6 (snd kv))) out)))"

subsection \<open>\<open>build_policy_grp\<close> (lines 176-189)\<close>

text \<open>
  One iteration of \<open>for c, col in enumerate(cols)\<close> on the list \<open>key\<close>; \<open>policy[col]\<close>
  is read only when the type is \<open>'catxl'\<close> (the \<open>and\<close> short-circuits).
\<close>

definition grp_step :: "policy \<Rightarrow> treaty list \<Rightarrow> nat \<Rightarrow> error + string \<Rightarrow> error + string" where
  "grp_step policy treaty_df c acc =
     (case acc of Inl e \<Rightarrow> Inl e
      | Inr key \<Rightarrow>
         (if ttype (treaty_df ! c) = ''catxl'' then
            (case policy (tid (treaty_df ! c)) of None \<Rightarrow> Inl KeyError
             | Some v \<Rightarrow> if v = 0 then Inr (key[c := CHR ''.'']) else Inr key)
          else Inr key))"

definition build_policy_grp :: "policy \<Rightarrow> treaty list \<Rightarrow> error + string" where
  "build_policy_grp policy treaty_df =
     fold (grp_step policy treaty_df) [0..<length treaty_df] (Inr (map code treaty_df))"

text \<open>The symbol that \<open>build_policy_grp\<close> leaves at a treaty's position.\<close>

definition grp_symbol :: "policy \<Rightarrow> treaty \<Rightarrow> char" where
  "grp_symbol policy t =
     (if ttype t = ''catxl'' \<and> policy (tid t) = Some 0 then CHR ''.'' else code t)"

subsection \<open>\<open>clever_agg\<close> (lines 196-245)\<close>

text \<open>
  A matrix of shape \<open>(E, 2+T)\<close> is the list of its rows, one per event. \<open>data[:, j]\<close>
  is a view of column \<open>j\<close>; the source writes through such views, the model reads the
  column, computes, and stores it back.
\<close>

type_synonym matrix = "real list list"

definition column :: "matrix \<Rightarrow> nat \<Rightarrow> real list" where
  "column data j = map (\<lambda>row. row ! j) data"

definition set_column :: "matrix \<Rightarrow> nat \<Rightarrow> real list \<Rightarrow> matrix" where
  "set_column data j v = map2 (\<lambda>row x. row[j := x]) data v"

text \<open>\<open>treaty_df.loc[code]\<close> on the frame indexed by code.\<close>

definition loc :: "treaty list \<Rightarrow> char \<Rightarrow> error + treaty" where
  "loc treaty_df c =
     (case find (\<lambda>t. code t = c) treaty_df of None \<Rightarrow> Inl KeyError | Some t \<Rightarrow> Inr t)"

text \<open>\<open>overdict\<close> maps \<open>'over_' + code\<close> to an array with one entry per event.\<close>

type_synonym overdict = "string \<rightharpoonup> real list"

text \<open>The key \<open>'over_' + code\<close> of \<open>overdict\<close>.\<close>

definition over_key :: "char \<Rightarrow> string" where
  "over_key c = ''over_'' @ [c]"

text \<open>
  The body of the loop \<open>for key, data in zip(ukeys, datalist)\<close> (lines 221-243) for
  one key and its matrix: it returns the shortened key, the updated matrix and the
  updated \<open>overdict\<close>. \<open>key[0]\<close> raises on an empty key, and \<open>data[:, j]\<close> raises when
  the matrix has no column \<open>j\<close>.
\<close>

definition agg_group ::
  "treaty list \<Rightarrow> (string \<rightharpoonup> nat) \<Rightarrow> string \<times> matrix \<Rightarrow> overdict
     \<Rightarrow> error + ((string \<times> matrix) \<times> overdict)" where
  "agg_group treaty_df idx kd overdict =
     (case fst kd of
        [] \<Rightarrow> Inl IndexError
      | c # newkey \<Rightarrow>
          if c \<noteq> CHR ''.'' then
            (case loc treaty_df c of
               Inl e \<Rightarrow> Inl e
             | Inr tr \<Rightarrow>
                (case idx ''retention'' of
                   None \<Rightarrow> Inl KeyError
                 | Some ir \<Rightarrow>
                    if list_ex (\<lambda>row. length row \<le> ir) (snd kd) then Inl IndexError
                    else
                    (case idx [c] of
                       None \<Rightarrow> Inl KeyError
                     | Some ic \<Rightarrow>
                        if list_ex (\<lambda>row. length row \<le> ic) (snd kd) then Inl IndexError
                        else
                        (let data = snd kd;
                             ret = column data ir;
                             cession = column data ic;
                             capacity = limit tr - deductible tr
                         in if ttype tr = ''catxl'' then
                              (let overspill = map (\<lambda>r. r - deductible tr - capacity) ret;
                                   has_over = list_ex (\<lambda>x. x > 0) overspill;
                                   cr = apply_treaty cession ret (deductible tr) capacity;
                                   data' = set_column (set_column data ir (snd cr)) ic (fst cr)
                               in Inr ((newkey, data'),
                                       if has_over
                                       then overdict(over_key c \<mapsto> map (\<lambda>x. max x 0) overspill)
                                       else overdict))
                            else if ttype tr = ''prop'' then
                              (let overspill = map (\<lambda>x. x - capacity) cession;
                                   has_over = list_ex (\<lambda>x. x > 0) overspill
                               in if has_over then
                                    (let ret' = map2 (\<lambda>r x. if x - capacity > 0
                                                              then r + (x - limit tr) else r)
                                                  ret cession;
                                         cession' = map (\<lambda>x. if x - capacity > 0
                                                                then limit tr else x) cession;
                                         data' = set_column (set_column data ir ret') ic cession'
                                     in Inr ((newkey, data'),
                                             overdict(over_key c
                                                        \<mapsto> map (\<lambda>x. max x 0) overspill)))
                                  else Inr ((newkey, data), overdict))
                            else Inr ((newkey, data), overdict)))))
          else Inr ((newkey, snd kd), overdict))"

text \<open>The whole loop: the groups in order, \<open>overdict\<close> threaded through.\<close>

fun agg_level ::
  "treaty list \<Rightarrow> (string \<rightharpoonup> nat) \<Rightarrow> (string \<times> matrix) list \<Rightarrow> overdict
     \<Rightarrow> error + ((string \<times> matrix) list \<times> overdict)" where
  "agg_level treaty_df idx [] overdict = Inr ([], overdict)"
| "agg_level treaty_df idx (kd # kds) overdict =
     (case agg_group treaty_df idx kd overdict of
        Inl e \<Rightarrow> Inl e
      | Inr r \<Rightarrow>
          (case agg_level treaty_df idx kds (snd r) of
             Inl e \<Rightarrow> Inl e
           | Inr rs \<Rightarrow> Inr (fst r # fst rs, snd rs)))"

text \<open>
  Modelled from the spec: \<open>fast_agg2\<close> of \<open>openquake.baselib.general\<close> is not among the
  sources. The spec has it group the shortened keys and sum the matrices of identical
  keys element-wise; the keys come back unique and sorted (\<open>numpy.unique\<close>), each with the
  sum of its matrices, which all have the shape of the first. The result pairs each key
  with its sum. Without any key there is no sum to take and the call fails.
\<close>

definition agg_sum :: "matrix list \<Rightarrow> matrix" where
  "agg_sum ms =
     map (\<lambda>e. map (\<lambda>c. sum_list (map (\<lambda>m. m ! e ! c) ms)) [0..<length (hd (hd ms))])
         [0..<length (hd ms)]"

definition fast_agg2 :: "string list \<Rightarrow> matrix list \<Rightarrow> error + (string \<times> matrix) list" where
  "fast_agg2 tags values =
     (if tags = [] then Inl ValueError
      else Inr (map (\<lambda>u. (u, agg_sum (map snd (filter (\<lambda>tv. fst tv = u) (zip tags values)))))
                    (sort (remdups tags))))"

lemma agg_group_key:
  assumes "agg_group treaty_df idx kd overdict = Inr r"
  shows "fst kd \<noteq> [] \<and> fst (fst r) = tl (fst kd)"
proof (cases "fst kd")
  case Nil
  then show ?thesis using assms by (simp add: agg_group_def)
next
  case (Cons c newkey)
  then show ?thesis using assms unfolding agg_group_def Let_def
    by (simp split: sum.splits option.splits if_splits) auto
qed

lemma agg_level_keys:
  "agg_level treaty_df idx kds overdict = Inr rs \<Longrightarrow>
   map fst (fst rs) = map (\<lambda>kd. tl (fst kd)) kds \<and> (\<forall>kd\<in>set kds. fst kd \<noteq> [])"
proof (induction kds arbitrary: overdict rs)
  case Nil
  then show ?case by auto
next
  case (Cons kd kds)
  obtain r where r: "agg_group treaty_df idx kd overdict = Inr r"
    using Cons.prems by (auto split: sum.splits)
  obtain rs' where rs': "agg_level treaty_df idx kds (snd r) = Inr rs'"
    using Cons.prems r by (auto split: sum.splits)
  have "rs = (fst r # fst rs', snd rs')" using Cons.prems r rs' by simp
  then show ?case using Cons.IH [OF rs'] agg_group_key [OF r] by simp
qed

lemma fast_agg2_keys:
  "fast_agg2 tags values = Inr aggs \<Longrightarrow> tags \<noteq> [] \<and> map fst aggs = sort (remdups tags)"
  by (auto simp add: fast_agg2_def comp_def split: if_splits)

lemma sum_length_remdups:
  "sum_list (map length (remdups (xs :: string list))) \<le> sum_list (map length xs)"
  by (induction xs) auto

lemma sum_length_insort:
  "sum_list (map length (insort x (xs :: string list))) = length x + sum_list (map length xs)"
  by (induction xs) auto

lemma sum_length_sort:
  "sum_list (map length (sort (xs :: string list))) = sum_list (map length xs)"
  by (induction xs) (auto simp add: sum_length_insort)

lemma sum_length_tl:
  "xs \<noteq> [] \<Longrightarrow> \<forall>x\<in>set xs. x \<noteq> [] \<Longrightarrow>
   sum_list (map (\<lambda>x. length (tl x)) xs) < sum_list (map length (xs :: string list))"
proof (induction xs)
  case Nil
  then show ?case by simp
next
  case (Cons x xs)
  have x: "length (tl x) < length x" using Cons.prems by simp
  show ?case
  proof (cases "xs = []")
    case True
    then show ?thesis using x by simp
  next
    case False
    then show ?thesis using Cons x by simp
  qed
qed

text \<open>
  \<open>clever_agg\<close> itself, on the list of (key, matrix) pairs that \<open>ukeys\<close> and \<open>datalist\<close>
  hold in parallel. \<open>DEBUG\<close> is \<open>False\<close>, so the printing block and \<open>eids\<close>, which only it
  reads, are left out. The result is the final matrix together with \<open>overdict\<close>, which
  the source fills in place.
\<close>

function clever_agg ::
  "(string \<times> matrix) list \<Rightarrow> treaty list \<Rightarrow> (string \<rightharpoonup> nat) \<Rightarrow> overdict
     \<Rightarrow> error + (matrix \<times> overdict)" where
  "clever_agg kds treaty_df idx overdict =
     (if length kds = 1 \<and> fst (hd kds) = [] then Inr (snd (hd kds), overdict)
      else
        (case agg_level treaty_df idx kds overdict of
           Inl e \<Rightarrow> Inl e
         | Inr rs \<Rightarrow>
            (case fast_agg2 (map fst (fst rs)) (map snd (fst rs)) of
               Inl e \<Rightarrow> Inl e
             | Inr aggs \<Rightarrow> clever_agg aggs treaty_df idx (snd rs))))"
  by pat_completeness auto
termination
proof (relation "measure (\<lambda>(kds, treaty_df, idx, overdict). sum_list (map (\<lambda>kd. length (fst kd)) kds))")
  show "wf (measure (\<lambda>(kds, treaty_df, idx, overdict). sum_list (map (\<lambda>kd. length (fst kd)) kds)))"
    by simp
next
  fix kds :: "(string \<times> matrix) list" and treaty_df :: "treaty list"
    and idx :: "string \<rightharpoonup> nat" and overdict :: overdict
    and rs :: "(string \<times> matrix) list \<times> overdict" and aggs :: "(string \<times> matrix) list"
  assume lv: "agg_level treaty_df idx kds overdict = Inr rs"
    and fa: "fast_agg2 (map fst (fst rs)) (map snd (fst rs)) = Inr aggs"
  have k: "map fst (fst rs) = map (\<lambda>kd. tl (fst kd)) kds" and ne: "\<forall>kd\<in>set kds. fst kd \<noteq> []"
    using agg_level_keys [OF lv] by simp_all
  have t: "map fst (fst rs) \<noteq> []" and s: "map fst aggs = sort (remdups (map fst (fst rs)))"
    using fast_agg2_keys [OF fa] by simp_all
  have kne: "map fst kds \<noteq> []" using t k by auto
  have "sum_list (map (\<lambda>kd. length (fst kd)) aggs) = sum_list (map length (map fst aggs))"
    by (simp add: comp_def)
  also have "\<dots> \<le> sum_list (map length (map fst (fst rs)))"
    unfolding s sum_length_sort by (rule sum_length_remdups)
  also have "\<dots> = sum_list (map (\<lambda>x. length (tl x)) (map fst kds))"
    unfolding k by (simp add: comp_def)
  also have "\<dots> < sum_list (map length (map fst kds))"
    using sum_length_tl [OF kne] ne by simp
  finally have "sum_list (map (\<lambda>kd. length (fst kd)) aggs) < sum_list (map (\<lambda>kd. length (fst kd)) kds)"
    by (simp add: comp_def)
  then show "((aggs, treaty_df, idx, snd rs), (kds, treaty_df, idx, overdict))
        \<in> measure (\<lambda>(kds, treaty_df, idx, overdict). sum_list (map (\<lambda>kd. length (fst kd)) kds))"
    by simp
qed

declare clever_agg.simps [simp del]

text \<open>
  The effect of the loop body in closed form: what it does to one row of the matrix of
  a group whose leading symbol names the treaty \<open>tr\<close> (\<open>ir\<close> and \<open>ic\<close> are the indices
  of the retention and of the treaty's cession), the array \<open>overspill\<close> it computes, and
  what it stores in \<open>overdict\<close>.
\<close>

definition row_step :: "treaty \<Rightarrow> nat \<Rightarrow> nat \<Rightarrow> real list \<Rightarrow> real list" where
  "row_step tr ir ic row =
     (if ttype tr = ''catxl'' then
        row[ir := split_ret (deductible tr) (limit tr - deductible tr) (row ! ir),
            ic := split_ces (deductible tr) (limit tr - deductible tr) (row ! ic) (row ! ir)]
      else if ttype tr = ''prop'' then
        (if row ! ic - (limit tr - deductible tr) > 0
         then row[ir := row ! ir + (row ! ic - limit tr), ic := limit tr] else row)
      else row)"

definition group_overspill :: "treaty \<Rightarrow> nat \<Rightarrow> nat \<Rightarrow> matrix \<Rightarrow> real list" where
  "group_overspill tr ir ic data =
     (if ttype tr = ''catxl''
      then map (\<lambda>row. row ! ir - deductible tr - (limit tr - deductible tr)) data
      else if ttype tr = ''prop''
      then map (\<lambda>row. row ! ic - (limit tr - deductible tr)) data
      else [])"

definition record_over :: "char \<Rightarrow> real list \<Rightarrow> overdict \<Rightarrow> overdict" where
  "record_over c overspill overdict =
     (if list_ex (\<lambda>x. x > 0) overspill
      then overdict(over_key c \<mapsto> map (\<lambda>x. max x 0) overspill) else overdict)"

text \<open>
  The column names \<open>outcols\<close> and the dictionary \<open>idx\<close> that \<open>_by_event\<close> builds (lines
  287-288) and hands to \<open>clever_agg\<close>; in the dictionary comprehension a repeated name
  keeps its last index.
\<close>

definition outcols :: "treaty list \<Rightarrow> string list" where
  "outcols treaty_df = ''retention'' # ''claim'' # map (\<lambda>t. [code t]) treaty_df"

definition mk_idx :: "string list \<Rightarrow> (string \<rightharpoonup> nat)" where
  "mk_idx cols = map_of (rev (zip cols [0..<length cols]))"

text \<open>
  The quantity of the sanity check (lines 313-316) for one row: retention plus all
  cessions minus the claim. The retention is column 0, the claim column 1.
\<close>

definition imbalance :: "real list \<Rightarrow> real" where
  "imbalance row = row ! 0 + sum_list (drop 2 row) - row ! 1"

text \<open>A matrix with \<open>E\<close> rows (events) of \<open>C\<close> columns each.\<close>

definition shaped :: "nat \<Rightarrow> nat \<Rightarrow> matrix \<Rightarrow> bool" where
  "shaped E C data = (length data = E \<and> list_all (\<lambda>row. length row = C) data)"

text \<open>
  What \<open>_by_event\<close> hands to the engine when the treaties \<open>ts\<close> are still to be applied
  and \<open>l\<close> treaties precede them in the catalog: at least one group, the keys distinct
  (they come from a \<open>groupby\<close>, later from \<open>numpy.unique\<close>); every key has one symbol per
  remaining treaty, the treaty's code or the sentinel (\<open>key_ok\<close>, what
  \<open>build_policy_grp\<close> produces); every matrix has \<open>E\<close> rows and one column per name of
  \<open>outcols\<close>; and the cession column of every remaining \<open>catxl\<close> treaty is still zero
  (\<open>cat_zero\<close>).
\<close>

definition key_ok :: "treaty list \<Rightarrow> string \<Rightarrow> bool" where
  "key_ok ts k = list_all2 (\<lambda>s t. s = CHR ''.'' \<or> s = code t) k ts"

definition cat_zero :: "treaty list \<Rightarrow> nat \<Rightarrow> matrix \<Rightarrow> bool" where
  "cat_zero ts l data =
     list_all (\<lambda>j. ttype (ts ! j) = ''catxl'' \<longrightarrow> list_all (\<lambda>row. row ! (2 + l + j) = 0) data)
       [0..<length ts]"

definition wf_groups :: "nat \<Rightarrow> treaty list \<Rightarrow> nat \<Rightarrow> (string \<times> matrix) list \<Rightarrow> bool" where
  "wf_groups E ts l kds =
     (kds \<noteq> [] \<and> distinct (map fst kds) \<and>
      list_all (\<lambda>kd. key_ok ts (fst kd) \<and> shaped E (2 + l + length ts) (snd kd)
                     \<and> cat_zero ts l (snd kd)) kds)"

text \<open>
  What one level makes of a group whose leading symbol is the sentinel or the code of
  \<open>tr\<close>, with the retention in column 0 and the treaty's cession in column \<open>ic\<close>.
\<close>

definition next_group :: "treaty \<Rightarrow> nat \<Rightarrow> string \<times> matrix \<Rightarrow> string \<times> matrix" where
  "next_group tr ic kd =
     (tl (fst kd), if hd (fst kd) = CHR ''.'' then snd kd else map (row_step tr 0 ic) (snd kd))"

subsection \<open>\<open>_by_event\<close> (lines 282-322)\<close>

text \<open>
  A row of the frame \<open>rbp\<close> of losses by event and policy: its event, its policy group,
  and its numeric cells by column name (\<open>claim\<close>, \<open>retention\<close>, one per treaty id).
\<close>

record row =
  event_id :: nat
  policy_grp :: string
  cell :: "string \<rightharpoonup> real"

text \<open>A column of a frame; a column that is not there raises \<open>KeyError\<close>.\<close>

fun get_cells :: "row list \<Rightarrow> string \<Rightarrow> error + real list" where
  "get_cells [] col = Inr []"
| "get_cells (r # rs) col =
     (case cell r col of None \<Rightarrow> Inl KeyError
      | Some v \<Rightarrow> (case get_cells rs col of Inl e \<Rightarrow> Inl e | Inr vs \<Rightarrow> Inr (v # vs)))"

fun get_columns :: "row list \<Rightarrow> string list \<Rightarrow> error + real list list" where
  "get_columns rs [] = Inr []"
| "get_columns rs (col # cols) =
     (case get_cells rs col of Inl e \<Rightarrow> Inl e
      | Inr vs \<Rightarrow> (case get_columns rs cols of Inl e \<Rightarrow> Inl e | Inr vss \<Rightarrow> Inr (vs # vss)))"

text \<open>
  \<open>grp[inpcols].groupby('eid').sum()\<close> for one column and one event: the sum of the
  column over the rows of the group that belong to the event (0 when there is none,
  which is what \<open>np.zeros\<close> left in the matrix).
\<close>

definition event_sum :: "row list \<Rightarrow> real list \<Rightarrow> nat \<Rightarrow> real" where
  "event_sum grp vs eid =
     sum_list (map snd (filter (\<lambda>rv. event_id (fst rv) = eid) (zip grp vs)))"

text \<open>
  The matrix of one group (lines 297-304). Column 1 is the claim, columns 2, 3, ... take
  the treaties of \<open>inpcols\<close> (those that are not \<open>catxl\<close>) in their order, the columns
  left over stay zero, and column 0 is column 1 minus all columns from 2 on.
\<close>

definition group_matrix ::
  "nat list \<Rightarrow> treaty list \<Rightarrow> row list \<Rightarrow> error + matrix" where
  "group_matrix eids treaty_df grp =
     (let noncat = map tid (filter (\<lambda>t. ttype t \<noteq> ''catxl'') treaty_df)
      in case get_columns grp (''claim'' # noncat) of
           Inl e \<Rightarrow> Inl e
         | Inr vss \<Rightarrow>
             Inr (map (\<lambda>eid.
                    (let filled = map (\<lambda>vs. event_sum grp vs eid) vss;
                         body = filled @ replicate (length (outcols treaty_df) - 1 - length filled) 0
                     in (hd body - sum_list (tl body)) # body)) eids))"

text \<open>The loop over \<open>rbp.groupby('policy_grp')\<close>: the groups in the order of their keys.\<close>

fun group_matrices ::
  "nat list \<Rightarrow> treaty list \<Rightarrow> row list \<Rightarrow> string list \<Rightarrow> error + (string \<times> matrix) list" where
  "group_matrices eids treaty_df rbp [] = Inr []"
| "group_matrices eids treaty_df rbp (key # keys) =
     (case group_matrix eids treaty_df (filter (\<lambda>r. policy_grp r = key) rbp) of
        Inl e \<Rightarrow> Inl e
      | Inr data \<Rightarrow>
          (case group_matrices eids treaty_df rbp keys of
             Inl e \<Rightarrow> Inl e
           | Inr kds \<Rightarrow> Inr ((key, data) # kds)))"

text \<open>
  \<open>np.testing.assert_allclose(actual, desired)\<close> with its defaults \<open>rtol = 1e-7\<close> and
  \<open>atol = 0\<close> raises \<open>AssertionError\<close> unless \<open>|actual - desired| \<le> rtol * |desired|\<close> at
  every index. Here \<open>actual\<close> is the sum of the cessions plus the retention, and
  \<open>desired\<close> the claim, of one row of the result.
\<close>

definition allclose_row :: "real list \<Rightarrow> bool" where
  "allclose_row r = (\<bar>(sum_list (drop 2 r) + r ! 0) - r ! 1\<bar> \<le> \<bar>r ! 1\<bar> / 10000000)"

text \<open>
  \<open>_by_event\<close>: the event ids (\<open>np.unique\<close>: sorted, without repetition), the matrices
  of the groups, the engine, and the sanity check on its result. The returned frame is
  given by the event ids, the matrix of the result (one column per name of \<open>outcols\<close>) and
  the overspill arrays.
\<close>

definition by_event :: "row list \<Rightarrow> treaty list \<Rightarrow> error + (nat list \<times> matrix \<times> overdict)" where
  "by_event rbp treaty_df =
     (let idx = mk_idx (outcols treaty_df);
          eids = sort (remdups (map event_id rbp))
      in case group_matrices eids treaty_df rbp (sort (remdups (map policy_grp rbp))) of
           Inl e \<Rightarrow> Inl e
         | Inr kds \<Rightarrow>
             (case clever_agg kds treaty_df idx Map.empty of
                Inl e \<Rightarrow> Inl e
              | Inr r \<Rightarrow>
                  if list_all allclose_row (fst r) then Inr (eids, fst r, snd r)
                  else Inl AssertionError))"

text \<open>
  A catalog in which no \<open>catxl\<close> treaty precedes a treaty of another type, and a frame
  \<open>rbp\<close> as \<open>by_policy\<close> produces it for the catalog: at least one row, every row
  with a policy group of the form \<open>build_policy_grp\<close> gives, a claim, and a cell for
  every treaty that is not \<open>catxl\<close>.
\<close>

definition catxl_last :: "treaty list \<Rightarrow> bool" where
  "catxl_last treaty_df =
     (treaty_df = filter (\<lambda>t. ttype t \<noteq> ''catxl'') treaty_df
                  @ filter (\<lambda>t. ttype t = ''catxl'') treaty_df)"

definition wf_rbp :: "treaty list \<Rightarrow> row list \<Rightarrow> bool" where
  "wf_rbp treaty_df rbp =
     (rbp \<noteq> [] \<and>
      list_all (\<lambda>r. key_ok treaty_df (policy_grp r) \<and> cell r ''claim'' \<noteq> None
                    \<and> list_all (\<lambda>t. ttype t \<noteq> ''catxl'' \<longrightarrow> cell r (tid t) \<noteq> None) treaty_df)
               rbp)"

lemma treaty_elem_closed:
  "treaty_elem d cap i (c, r) =
     (c[i := split_ces d cap (c ! i) (r ! i)], r[i := split_ret d cap (r ! i)])"
  by (simp add: treaty_elem_def Let_def split_ces_def split_ret_def)

lemma treaty_fold_upt:
  "n \<le> length r \<Longrightarrow> length c = length r \<Longrightarrow>
   fold (treaty_elem d cap) [0..<n] (c, r) =
     (map2 (split_ces d cap) (take n c) (take n r) @ drop n c,
      map (split_ret d cap) (take n r) @ drop n r)"
proof (induction n)
  case 0
  show ?case by simp
next
  case (Suc n)
  have n: "n < length r" "n < length c" using Suc.prems by simp_all
  have dc: "drop n c = c ! n # drop (Suc n) c" and dr: "drop n r = r ! n # drop (Suc n) r"
    using n by (simp_all add: Cons_nth_drop_Suc)
  have tc: "take (Suc n) c = take n c @ [c ! n]" and tr: "take (Suc n) r = take n r @ [r ! n]"
    using n by (simp_all add: take_Suc_conv_app_nth)
  have ih: "fold (treaty_elem d cap) [0..<n] (c, r) =
      (map2 (split_ces d cap) (take n c) (take n r) @ drop n c,
       map (split_ret d cap) (take n r) @ drop n r)"
    using Suc by simp
  have l1: "length (map2 (split_ces d cap) (take n c) (take n r)) = n"
    and l2: "length (map (split_ret d cap) (take n r)) = n"
    using n by simp_all
  show ?case
    unfolding upt_Suc_append [OF le0] fold_append comp_def ih
    using l1 l2 n
    by (simp add: treaty_elem_closed dc dr tc tr nth_append list_update_append)
qed

lemma apply_treaty_closed:
  "length cession = length retention \<Longrightarrow>
   apply_treaty cession retention deduc capacity =
     (map2 (split_ces deduc capacity) cession retention, map (split_ret deduc capacity) retention)"
  unfolding apply_treaty_def using treaty_fold_upt [of "length retention" retention cession]
  by simp

lemma apply_treaty_nth:
  assumes "length cession = length retention" and "i < length retention"
  shows "fst (apply_treaty cession retention deduc capacity) ! i =
           split_ces deduc capacity (cession ! i) (retention ! i)"
    and "snd (apply_treaty cession retention deduc capacity) ! i =
           split_ret deduc capacity (retention ! i)"
  using assms by (simp_all add: apply_treaty_closed)

lemma apply_treaty_length:
  assumes "length cession = length retention"
  shows "length (fst (apply_treaty cession retention deduc capacity)) = length retention"
    and "length (snd (apply_treaty cession retention deduc capacity)) = length retention"
  using assms by (simp_all add: apply_treaty_closed)

subsection \<open>Claims about \<open>apply_treaty\<close>\<close>

text \<open>
  C2. Conservation of the treaty split: when the two arrays have one length and the
  cession entries start at 0, then at every index the retention after the call plus
  the cession after the call equals the retention before it. The theorem needs no
  sign condition on retention, deductible or capacity, so it covers in particular all
  \<open>r \<ge> 0\<close>, \<open>d \<ge> 0\<close>, \<open>c \<ge> 0\<close>.
\<close>

theorem apply_treaty_conservation:
  assumes "length cession = length retention"
    and "\<forall>i < length retention. cession ! i = 0"
    and "apply_treaty cession retention deduc capacity = (cession', retention')"
    and "i < length retention"
  shows "retention' ! i + cession' ! i = retention ! i"
proof -
  have "cession' ! i = split_ces deduc capacity (cession ! i) (retention ! i)"
    and "retention' ! i = split_ret deduc capacity (retention ! i)"
    using apply_treaty_nth [OF assms(1) assms(4), of deduc capacity] assms(3) by simp_all
  moreover have "cession ! i = 0" using assms(2) assms(4) by simp
  ultimately show ?thesis by (simp add: split_ces_def split_ret_def)
qed

theorem apply_treaty_conservation_witness:
  "apply_treaty [0, 0, 0] [30, 120, 200] 50 100 = ([0, 70, 100], [30, 50, 100])
   \<and> (100::real) + 100 = [30, 120, 200] ! 2"
proof -
  have e: "apply_treaty [0, 0, 0] [30, 120, 200] 50 100 = ([0, 70, 100], [30, 50, 100])"
    by (simp add: apply_treaty_closed split_ces_def split_ret_def)
  have "[30, 50, 100::real] ! 2 + [0, 70, 100] ! 2 = [30, 120, 200] ! 2"
    by (rule apply_treaty_conservation [OF _ _ e]) (simp_all add: nth_Cons')
  then show ?thesis using e by simp
qed

text \<open>
  C3. The three cases of the treaty split, for an entry whose cession starts at 0 and a
  capacity \<open>c \<ge> 0\<close>: if \<open>r \<le> d\<close> the retention is unchanged and the cession is 0;
  if \<open>d < r \<le> d + c\<close> the retention becomes \<open>d\<close> and the cession \<open>r - d\<close>; if
  \<open>r > d + c\<close> the retention becomes \<open>d + (r - d - c)\<close> and the cession \<open>c\<close>.
\<close>

theorem apply_treaty_piecewise:
  assumes "length cession = length retention"
    and "i < length retention"
    and "cession ! i = 0"
    and "0 \<le> c"
    and "apply_treaty cession retention d c = (cession', retention')"
    and "r = retention ! i"
  shows "(r \<le> d \<longrightarrow> retention' ! i = r \<and> cession' ! i = 0)
       \<and> (d < r \<and> r \<le> d + c \<longrightarrow> retention' ! i = d \<and> cession' ! i = r - d)
       \<and> (r > d + c \<longrightarrow> retention' ! i = d + (r - d - c) \<and> cession' ! i = c)"
proof -
  have "cession' ! i = split_ces d c (cession ! i) (retention ! i)"
    and "retention' ! i = split_ret d c (retention ! i)"
    using apply_treaty_nth [OF assms(1) assms(2), of d c] assms(5) by simp_all
  then show ?thesis using assms(3) assms(4) assms(6)
    by (auto simp add: split_ces_def split_ret_def)
qed

theorem apply_treaty_piecewise_witness:
  "apply_treaty [0, 0, 0] [30, 120, 200] 50 100 = ([0, 70, 100], [30, 50, 100])
   \<and> [30, 50, 100::real] ! 0 = 30 \<and> [0, 70, 100::real] ! 0 = 0
   \<and> [30, 50, 100::real] ! 1 = 50 \<and> [0, 70, 100::real] ! 1 = 120 - 50
   \<and> [30, 50, 100::real] ! 2 = 50 + (200 - 50 - 100) \<and> [0, 70, 100::real] ! 2 = 100"
proof -
  have e: "apply_treaty [0, 0, 0] [30, 120, 200] 50 100 = ([0, 70, 100], [30, 50, 100])"
    by (simp add: apply_treaty_closed split_ces_def split_ret_def)
  have l: "length [0, 0, 0::real] = length [30, 120, 200::real]" by simp
  have c: "(0::real) \<le> 100" by simp
  have "[30, 50, 100::real] ! 0 = 30 \<and> [0, 70, 100::real] ! 0 = 0"
    using apply_treaty_piecewise [OF l _ _ c e, of 0 30] by simp
  moreover have "[30, 50, 100::real] ! 1 = 50 \<and> [0, 70, 100::real] ! 1 = 120 - 50"
    using apply_treaty_piecewise [OF l _ _ c e, of 1 120] by simp
  moreover have "[30, 50, 100::real] ! 2 = 50 + (200 - 50 - 100) \<and> [0, 70, 100::real] ! 2 = 100"
    using apply_treaty_piecewise [OF l _ _ c e, of 2 200] by simp
  ultimately show ?thesis using e by simp
qed

subsection \<open>Properties of \<open>claim_to_cessions\<close>\<close>

lemma lookup_all_Inr: "lookup_all policy cols = Inr fs \<Longrightarrow> map policy cols = map Some fs"
  by (induction cols arbitrary: fs) (auto split: option.splits sum.splits)

lemma lookup_all_dom:
  "set cols \<subseteq> dom policy \<Longrightarrow> \<exists>fs. lookup_all policy cols = Inr fs"
  by (induction cols) (auto split: option.splits sum.splits)

lemma wxl_step_error:
  "wxl_step policy n t acc = Inl e \<Longrightarrow> acc = Inl e \<or> e = KeyError"
  unfolding wxl_step_def Let_def
  by (simp split: sum.splits option.splits if_splits prod.splits)

lemma wxl_fold_error:
  "fold (wxl_step policy n) ts acc = Inl e \<Longrightarrow> acc = Inl e \<or> e = KeyError"
proof (induction ts arbitrary: acc)
  case Nil
  then show ?case by simp
next
  case (Cons t ts)
  then have "wxl_step policy n t acc = Inl e \<or> e = KeyError" by simp
  then show ?case using wxl_step_error by blast
qed

lemma claim_to_cessions_unfold:
  assumes "lookup_all policy (prop_cols treaty_df) = Inr fractions" and "sum_list fractions \<le> 1"
  shows "claim_to_cessions claim policy treaty_df =
     (case fold (wxl_step policy (length claim)) (filter (\<lambda>t. ttype t = ''wxlr'') treaty_df)
            (Inr (fold (prop_step claim) (zip (prop_cols treaty_df) fractions)
                 [(''retention'', map (\<lambda>c. c * (1 - sum_list fractions)) claim), (''claim'', claim)]))
      of Inl e \<Rightarrow> Inl e
       | Inr out \<Rightarrow> Inr (map (\<lambda>kv. (fst kv, map round6 (snd kv))) out))"
  unfolding claim_to_cessions_def Let_def using assms by simp

lemma rint_error: "\<bar>of_int (rint x) - x\<bar> \<le> 1 / 2"
proof -
  have "of_int \<lfloor>x\<rfloor> \<le> x" "x < of_int \<lfloor>x\<rfloor> + 1" by linarith+
  then show ?thesis unfolding rint_def Let_def by (auto simp add: abs_le_iff)
qed

lemma round6_error: "\<bar>round6 x - x\<bar> \<le> 1 / 2000000"
proof -
  have "\<bar>of_int (rint (x * 1000000)) - x * 1000000\<bar> \<le> 1 / 2" by (rule rint_error)
  then show ?thesis unfolding round6_def by (simp add: abs_le_iff field_simps)
qed

lemma round6_sum_error:
  "\<bar>sum_list (map (\<lambda>fr. round6 (c * fr)) fs) - c * sum_list fs\<bar> \<le> real (length fs) / 2000000"
proof (induction fs)
  case Nil
  show ?case by simp
next
  case (Cons fr fs)
  have a: "\<bar>round6 (c * fr) - c * fr\<bar> \<le> 1 / 2000000" by (rule round6_error)
  have b: "c * sum_list (fr # fs) = c * fr + c * sum_list fs" by (simp add: algebra_simps)
  have d: "real (length (fr # fs)) / 2000000 = 1 / 2000000 + real (length fs) / 2000000"
    by (simp add: add_divide_distrib)
  have e: "sum_list (map (\<lambda>fr. round6 (c * fr)) (fr # fs)) =
           round6 (c * fr) + sum_list (map (\<lambda>fr. round6 (c * fr)) fs)" by simp
  show ?case unfolding b d e using a Cons by linarith
qed

lemma prop_fold_other:
  "k \<notin> fst ` set cfs \<Longrightarrow> map_of (fold (prop_step claim) cfs out) k = map_of out k"
  by (induction cfs arbitrary: out) (auto simp add: prop_step_def update_conv')

lemma prop_fold_member:
  "distinct (map fst cfs) \<Longrightarrow> (k, fr) \<in> set cfs \<Longrightarrow>
   map_of (fold (prop_step claim) cfs out) k = Some (map (\<lambda>c. c * fr) claim)"
proof (induction cfs arbitrary: out)
  case Nil
  then show ?case by simp
next
  case (Cons cf cfs)
  show ?case
  proof (cases "cf = (k, fr)")
    case True
    then have "k \<notin> fst ` set cfs" using Cons.prems(1) by auto
    then show ?thesis using True
      by (simp add: prop_fold_other, simp add: prop_step_def update_conv')
  next
    case False
    then show ?thesis using Cons by auto
  qed
qed

lemma wxl_step_inactive:
  "policy (tid t) = Some 0 \<Longrightarrow>
   wxl_step policy n t (Inr out) = Inr (AList.update (tid t) (replicate n 0) out)"
  by (simp add: wxl_step_def Let_def)

lemma wxl_fold_inactive:
  "\<forall>t\<in>set ts. policy (tid t) = Some 0 \<Longrightarrow>
   \<exists>out'. fold (wxl_step policy n) ts (Inr out) = Inr out'
      \<and> (\<forall>k. k \<notin> tid ` set ts \<longrightarrow> map_of out' k = map_of out k)"
proof (induction ts arbitrary: out)
  case Nil
  show ?case by simp
next
  case (Cons t ts)
  obtain out' where o: "fold (wxl_step policy n) ts (Inr (AList.update (tid t) (replicate n 0) out)) = Inr out'"
     and k: "\<forall>k. k \<notin> tid ` set ts \<longrightarrow>
              map_of out' k = map_of (AList.update (tid t) (replicate n 0) out) k"
    using Cons.IH [of "AList.update (tid t) (replicate n 0) out"] Cons.prems by auto
  show ?case using o k Cons.prems by (simp add: wxl_step_inactive update_conv')
qed

lemma wxl_step_other:
  assumes "wxl_step policy n t (Inr out) = Inr out'" and "k \<noteq> tid t" and "k \<noteq> ''retention''"
  shows "map_of out' k = map_of out k"
  using assms unfolding wxl_step_def Let_def
  by (auto simp add: update_conv' split: option.splits if_splits)

lemma wxl_step_defined:
  assumes "tid t \<in> dom policy" and "map_of out ''retention'' \<noteq> None"
  shows "\<exists>out'. wxl_step policy n t (Inr out) = Inr out' \<and> map_of out' ''retention'' \<noteq> None"
proof -
  obtain p where p: "policy (tid t) = Some p" using assms(1) by auto
  have "\<exists>r. map_of (AList.update (tid t) (replicate n 0) out) ''retention'' = Some r"
    using assms(2) by (cases "''retention'' = tid t") (auto simp add: update_conv')
  then obtain r where r: "map_of (AList.update (tid t) (replicate n 0) out) ''retention'' = Some r"
    by blast
  have c: "map_of (AList.update (tid t) (replicate n 0) out) (tid t) = Some (replicate n 0)"
    by (simp add: update_conv')
  show ?thesis unfolding wxl_step_def Let_def using p r c by (simp add: update_conv')
qed

lemma wxl_fold_defined:
  "\<forall>t\<in>set ts. tid t \<in> dom policy \<Longrightarrow> map_of out ''retention'' \<noteq> None \<Longrightarrow>
   \<exists>out'. fold (wxl_step policy n) ts (Inr out) = Inr out'"
proof (induction ts arbitrary: out)
  case Nil
  show ?case by simp
next
  case (Cons t ts)
  obtain o1 where "wxl_step policy n t (Inr out) = Inr o1" "map_of o1 ''retention'' \<noteq> None"
    using wxl_step_defined [of t policy out n] Cons.prems by auto
  then show ?case using Cons.IH [of o1] Cons.prems by simp
qed

lemma wxl_fold_other:
  "fold (wxl_step policy n) ts (Inr out) = Inr out' \<Longrightarrow> k \<notin> tid ` set ts \<Longrightarrow>
   k \<noteq> ''retention'' \<Longrightarrow> map_of out' k = map_of out k"
proof (induction ts arbitrary: out)
  case Nil
  then show ?case by simp
next
  case (Cons t ts)
  show ?case
  proof (cases "wxl_step policy n t (Inr out)")
    case (Inl e)
    then have "fold (wxl_step policy n) ts (Inl e) = Inr out'" using Cons.prems(1) by simp
    moreover have "fold (wxl_step policy n) ts (Inl e) = Inl e"
      by (induction ts) (simp_all add: wxl_step_def)
    ultimately show ?thesis by simp
  next
    case (Inr o1)
    then have "map_of out' k = map_of o1 k" using Cons by simp
    moreover have "map_of o1 k = map_of out k" using wxl_step_other [OF Inr] Cons.prems by simp
    ultimately show ?thesis by simp
  qed
qed

lemma map_of_round:
  "map_of (map (\<lambda>kv. (fst kv, g (snd kv))) out) k = map_option g (map_of out k)"
  by (induction out) auto

lemma prop_cols_distinct: "distinct (map tid treaty_df) \<Longrightarrow> distinct (prop_cols treaty_df)"
  unfolding prop_cols_def by (rule distinct_map_filter)

lemma lookup_all_zip:
  assumes "lookup_all policy cols = Inr fs" and "k \<in> set cols"
  shows "\<exists>fr. policy k = Some fr \<and> (k, fr) \<in> set (zip cols fs)"
proof -
  have m: "map policy cols = map Some fs" using assms(1) by (rule lookup_all_Inr)
  then have l: "length cols = length fs" using map_eq_imp_length_eq by blast
  obtain i where i: "i < length cols" "cols ! i = k" using assms(2) by (auto simp add: in_set_conv_nth)
  have "map policy cols ! i = map Some fs ! i" using m by simp
  then have "policy k = Some (fs ! i)" using i l by simp
  moreover have "(cols ! i, fs ! i) \<in> set (zip cols fs)" using i l by (auto simp add: set_zip)
  ultimately show ?thesis using i by auto
qed

text \<open>
  C8. When the policy has a value for every proportional column (so that the list
  \<open>fractions\<close> exists), \<open>claim_to_cessions\<close> fails with \<open>AssertionError\<close>, and so
  returns no dictionary at all, exactly when the fractions sum to more than 1.
\<close>

theorem claim_to_cessions_fraction_check:
  assumes "lookup_all policy (prop_cols treaty_df) = Inr fractions"
  shows "(claim_to_cessions claim policy treaty_df = Inl AssertionError) = (sum_list fractions > 1)"
proof (cases "sum_list fractions > 1")
  case True
  then show ?thesis using assms by (simp add: claim_to_cessions_def)
next
  case False
  then have le: "sum_list fractions \<le> 1" by simp
  have "claim_to_cessions claim policy treaty_df \<noteq> Inl AssertionError"
  proof
    assume a: "claim_to_cessions claim policy treaty_df = Inl AssertionError"
    then obtain out where
      "fold (wxl_step policy (length claim)) (filter (\<lambda>t. ttype t = ''wxlr'') treaty_df) (Inr out)
         = Inl AssertionError"
      unfolding claim_to_cessions_unfold [OF assms le] by (simp split: sum.splits)
    then show False using wxl_fold_error [of policy "length claim" _ "Inr out" AssertionError] by simp
  qed
  then show ?thesis using False by simp
qed

theorem claim_to_cessions_fraction_check_witness:
  "lookup_all [''p1'' \<mapsto> 6 / 10, ''p2'' \<mapsto> 5 / 10]
     (prop_cols [\<lparr>tid = ''p1'', ttype = ''prop'', deductible = 0, limit = 1000, code = CHR ''A''\<rparr>,
                 \<lparr>tid = ''p2'', ttype = ''prop'', deductible = 0, limit = 1000, code = CHR ''B''\<rparr>])
     = Inr [6 / 10, 5 / 10]
   \<and> claim_to_cessions [100] [''p1'' \<mapsto> 6 / 10, ''p2'' \<mapsto> 5 / 10]
        [\<lparr>tid = ''p1'', ttype = ''prop'', deductible = 0, limit = 1000, code = CHR ''A''\<rparr>,
         \<lparr>tid = ''p2'', ttype = ''prop'', deductible = 0, limit = 1000, code = CHR ''B''\<rparr>]
     = Inl AssertionError"
proof -
  let ?P = "[''p1'' \<mapsto> 6 / 10, ''p2'' \<mapsto> (5 / 10::real)]"
  let ?T = "[\<lparr>tid = ''p1'', ttype = ''prop'', deductible = 0, limit = 1000, code = CHR ''A''\<rparr>,
             \<lparr>tid = ''p2'', ttype = ''prop'', deductible = 0, limit = 1000, code = CHR ''B''\<rparr>]"
  have h: "lookup_all ?P (prop_cols ?T) = Inr [6 / 10, 5 / 10]"
    by (simp add: prop_cols_def)
  have "claim_to_cessions [100] ?P ?T = Inl AssertionError"
    using claim_to_cessions_fraction_check [OF h, of "[100]"] by simp
  then show ?thesis using h by simp
qed

text \<open>
  C6, as stated, fails. With three proportional fractions 0.2000004, a claim of 1 and a
  \<open>wxlr\<close> treaty (deductible 0.1, limit 0.2) the policy takes part in, each proportional
  cession is rounded to 0.2, so their sum 0.6 is 1.2e-6 away from \<open>C f = 0.6000012\<close>, and
  the retention is 0.299999, not \<open>C (1 - f) = 0.3999988\<close>: the \<open>wxlr\<close> treaty has taken
  its share from it.
\<close>

theorem claim_to_cessions_proportional_counterexample:
  "claim_to_cessions [1]
      [''p1'' \<mapsto> 2000004 / 10000000, ''p2'' \<mapsto> 2000004 / 10000000,
       ''p3'' \<mapsto> 2000004 / 10000000, ''x1'' \<mapsto> 1]
      [\<lparr>tid = ''p1'', ttype = ''prop'', deductible = 0, limit = 1000, code = CHR ''A''\<rparr>,
       \<lparr>tid = ''p2'', ttype = ''prop'', deductible = 0, limit = 1000, code = CHR ''B''\<rparr>,
       \<lparr>tid = ''p3'', ttype = ''prop'', deductible = 0, limit = 1000, code = CHR ''C''\<rparr>,
       \<lparr>tid = ''x1'', ttype = ''wxlr'', deductible = 1 / 10, limit = 2 / 10, code = CHR ''D''\<rparr>]
    = Inr [(''retention'', [299999 / 1000000]), (''claim'', [1]),
           (''p1'', [2 / 10]), (''p2'', [2 / 10]), (''p3'', [2 / 10]), (''x1'', [1 / 10])]
   \<and> \<not> \<bar>(2 / 10 + 2 / 10 + 2 / 10) - 1 * (3 * (2000004 / 10000000))\<bar> \<le> (1 / 1000000 :: real)
   \<and> \<not> \<bar>299999 / 1000000 - 1 * (1 - 3 * (2000004 / 10000000))\<bar> \<le> (1 / 1000000 :: real)"
  by (simp add: claim_to_cessions_def prop_cols_def prop_step_def wxl_step_def Let_def
      apply_treaty_closed split_ces_def split_ret_def round6_def rint_def)

text \<open>
  C6, amended. For treaties with distinct ids, none of them called \<open>retention\<close>, and a
  policy that has every proportional and \<open>wxlr\<close> column, with fractions summing to
  \<open>f \<le> 1\<close>: \<open>claim_to_cessions\<close> returns a dictionary in which each proportional treaty
  has the cession \<open>C * fraction\<close> rounded to 6 decimals, and, when the policy takes part
  in no \<open>wxlr\<close> treaty, the retention is \<open>C * (1 - f)\<close> rounded to 6 decimals. Each
  rounding moves a value by at most 5e-7, so the sum of the \<open>n\<close> proportional cessions is
  within \<open>n * 5e-7\<close> of \<open>C * f\<close>.
\<close>

theorem claim_to_cessions_proportional:
  assumes "distinct (map tid treaty_df)"
    and "''retention'' \<notin> tid ` set treaty_df"
    and "lookup_all policy (prop_cols treaty_df) = Inr fractions"
    and "sum_list fractions \<le> 1"
    and "\<forall>t\<in>set treaty_df. ttype t = ''wxlr'' \<longrightarrow> tid t \<in> dom policy"
  shows "\<exists>out. claim_to_cessions claim policy treaty_df = Inr out
     \<and> (\<forall>t\<in>set treaty_df. ttype t = ''prop'' \<longrightarrow>
           (\<exists>fr. policy (tid t) = Some fr
               \<and> map_of out (tid t) = Some (map (\<lambda>c. round6 (c * fr)) claim)))
     \<and> ((\<forall>t\<in>set treaty_df. ttype t = ''wxlr'' \<longrightarrow> policy (tid t) = Some 0) \<longrightarrow>
           map_of out ''retention'' = Some (map (\<lambda>c. round6 (c * (1 - sum_list fractions))) claim))
     \<and> (\<forall>c fr. \<bar>round6 (c * fr) - c * fr\<bar> \<le> 1 / 2000000)
     \<and> (\<forall>c. \<bar>sum_list (map (\<lambda>fr. round6 (c * fr)) fractions) - c * sum_list fractions\<bar>
              \<le> real (length fractions) / 2000000)"
proof -
  let ?cols = "prop_cols treaty_df"
  let ?wxl = "filter (\<lambda>t. ttype t = ''wxlr'') treaty_df"
  let ?ret0 = "map (\<lambda>c. c * (1 - sum_list fractions)) claim"
  let ?out0 = "[(''retention'', ?ret0), (''claim'', claim)]"
  let ?out1 = "fold (prop_step claim) (zip ?cols fractions) ?out0"
  have len: "length ?cols = length fractions"
    using lookup_all_Inr [OF assms(3)] map_eq_imp_length_eq by blast
  have inj: "inj_on tid (set treaty_df)" using assms(1) by (simp add: distinct_map)
  have cols_sub: "set ?cols \<subseteq> tid ` set treaty_df" by (auto simp add: prop_cols_def)
  have ret_notin: "''retention'' \<notin> fst ` set (zip ?cols fractions)"
    using assms(2) cols_sub by (auto dest: set_zip_leftD)
  have ret1: "map_of ?out1 ''retention'' = Some ?ret0"
    using prop_fold_other [OF ret_notin] by simp
  have "\<forall>t\<in>set ?wxl. tid t \<in> dom policy" using assms(5) by simp
  then obtain out2 where out2: "fold (wxl_step policy (length claim)) ?wxl (Inr ?out1) = Inr out2"
    using wxl_fold_defined [of ?wxl policy ?out1 "length claim"] ret1 by auto
  let ?out = "map (\<lambda>kv. (fst kv, map round6 (snd kv))) out2"
  have res: "claim_to_cessions claim policy treaty_df = Inr ?out"
    unfolding claim_to_cessions_unfold [OF assms(3) assms(4)] out2 by simp
  have props: "\<exists>fr. policy (tid t) = Some fr
               \<and> map_of ?out (tid t) = Some (map (\<lambda>c. round6 (c * fr)) claim)"
    if t: "t \<in> set treaty_df" "ttype t = ''prop''" for t
  proof -
    have "tid t \<in> set ?cols" using t by (simp add: prop_cols_def)
    then obtain fr where fr: "policy (tid t) = Some fr" "(tid t, fr) \<in> set (zip ?cols fractions)"
      using lookup_all_zip [OF assms(3)] by blast
    have d: "distinct (map fst (zip ?cols fractions))"
      using prop_cols_distinct [OF assms(1)] len by simp
    have m1: "map_of ?out1 (tid t) = Some (map (\<lambda>c. c * fr) claim)"
      using prop_fold_member [OF d fr(2)] by simp
    have "tid t \<notin> tid ` set ?wxl"
    proof
      assume "tid t \<in> tid ` set ?wxl"
      then obtain t' where t': "t' \<in> set treaty_df" "ttype t' = ''wxlr''" "tid t' = tid t" by auto
      then have "t' = t" using inj t(1) by (auto dest: inj_onD)
      then show False using t(2) t'(2) by simp
    qed
    moreover have "tid t \<noteq> ''retention''" using assms(2) t(1) by (metis imageI)
    ultimately have "map_of out2 (tid t) = map_of ?out1 (tid t)"
      using wxl_fold_other [OF out2] by simp
    then have "map_of ?out (tid t) = Some (map (\<lambda>c. round6 (c * fr)) claim)"
      using m1 by (simp add: map_of_round comp_def)
    then show ?thesis using fr(1) by blast
  qed
  have ret: "map_of ?out ''retention'' = Some (map (\<lambda>c. round6 (c * (1 - sum_list fractions))) claim)"
    if inactive: "\<forall>t\<in>set treaty_df. ttype t = ''wxlr'' \<longrightarrow> policy (tid t) = Some 0"
  proof -
    have "\<forall>t\<in>set ?wxl. policy (tid t) = Some 0" using inactive by simp
    then obtain out' where o: "fold (wxl_step policy (length claim)) ?wxl (Inr ?out1) = Inr out'"
      and k: "\<forall>k. k \<notin> tid ` set ?wxl \<longrightarrow> map_of out' k = map_of ?out1 k"
      using wxl_fold_inactive [of ?wxl policy "length claim" ?out1] by blast
    have "out' = out2" using o out2 by simp
    moreover have "''retention'' \<notin> tid ` set ?wxl" using assms(2) by auto
    ultimately have "map_of out2 ''retention'' = Some ?ret0" using k ret1 by simp
    then show ?thesis by (simp add: map_of_round comp_def)
  qed
  show ?thesis using res props ret round6_error round6_sum_error by blast
qed

theorem claim_to_cessions_proportional_witness:
  "\<exists>out. claim_to_cessions [100, 5] [''p1'' \<mapsto> 3 / 10, ''x1'' \<mapsto> 0]
        [\<lparr>tid = ''p1'', ttype = ''prop'', deductible = 0, limit = 1000, code = CHR ''A''\<rparr>,
         \<lparr>tid = ''x1'', ttype = ''wxlr'', deductible = 10, limit = 50, code = CHR ''B''\<rparr>] = Inr out
     \<and> map_of out ''p1'' = Some [30, 3 / 2] \<and> map_of out ''retention'' = Some [70, 7 / 2]"
proof -
  let ?P = "[''p1'' \<mapsto> 3 / 10, ''x1'' \<mapsto> (0::real)]"
  let ?T = "[\<lparr>tid = ''p1'', ttype = ''prop'', deductible = 0, limit = 1000, code = CHR ''A''\<rparr>,
             \<lparr>tid = ''x1'', ttype = ''wxlr'', deductible = 10, limit = 50, code = CHR ''B''\<rparr>]"
  have h1: "distinct (map tid ?T)" by simp
  have h2: "''retention'' \<notin> tid ` set ?T" by simp
  have h3: "lookup_all ?P (prop_cols ?T) = Inr [3 / 10]" by (simp add: prop_cols_def)
  have h4: "sum_list [3 / 10 :: real] \<le> 1" by simp
  have h5: "\<forall>t\<in>set ?T. ttype t = ''wxlr'' \<longrightarrow> tid t \<in> dom ?P" by simp
  obtain out where o: "claim_to_cessions [100, 5] ?P ?T = Inr out"
    and p: "\<forall>t\<in>set ?T. ttype t = ''prop'' \<longrightarrow>
           (\<exists>fr. ?P (tid t) = Some fr
               \<and> map_of out (tid t) = Some (map (\<lambda>c. round6 (c * fr)) [100, 5]))"
    and q: "(\<forall>t\<in>set ?T. ttype t = ''wxlr'' \<longrightarrow> ?P (tid t) = Some 0) \<longrightarrow>
           map_of out ''retention'' = Some (map (\<lambda>c. round6 (c * (1 - sum_list [3 / 10]))) [100, 5])"
    using claim_to_cessions_proportional [OF h1 h2 h3 h4 h5, of "[100, 5]"] by blast
  obtain fr where f: "?P ''p1'' = Some fr"
    and m: "map_of out ''p1'' = Some (map (\<lambda>c. round6 (c * fr)) [100, 5])"
    using p by force
  have fr: "fr = 3 / 10" using f by simp
  have "map_of out ''p1'' = Some [round6 (100 * (3 / 10)), round6 (5 * (3 / 10))]"
    unfolding m fr by simp
  then have "map_of out ''p1'' = Some [30, 3 / 2]"
    by (simp add: round6_def rint_def Let_def)
  moreover have "map_of out ''retention'' = Some [round6 (100 * (1 - 3 / 10)), round6 (5 * (1 - 3 / 10))]"
    using q by simp
  then have "map_of out ''retention'' = Some [70, 7 / 2]"
    by (simp add: round6_def rint_def Let_def)
  ultimately show ?thesis using o by blast
qed

subsection \<open>Properties of \<open>build_policy_grp\<close>\<close>

lemma grp_fold_upt:
  assumes "\<forall>t\<in>set treaty_df. ttype t = ''catxl'' \<longrightarrow> tid t \<in> dom policy"
  shows "n \<le> length treaty_df \<Longrightarrow>
         fold (grp_step policy treaty_df) [0..<n] (Inr (map code treaty_df)) =
           Inr (map (grp_symbol policy) (take n treaty_df) @ map code (drop n treaty_df))"
proof (induction n)
  case 0
  show ?case by simp
next
  case (Suc n)
  have n: "n < length treaty_df" using Suc.prems by simp
  have ih: "fold (grp_step policy treaty_df) [0..<n] (Inr (map code treaty_df)) =
           Inr (map (grp_symbol policy) (take n treaty_df) @ map code (drop n treaty_df))"
    using Suc by simp
  have d: "drop n treaty_df = treaty_df ! n # drop (Suc n) treaty_df"
    using n by (simp add: Cons_nth_drop_Suc)
  have t: "take (Suc n) treaty_df = take n treaty_df @ [treaty_df ! n]"
    using n by (simp add: take_Suc_conv_app_nth)
  have l: "length (map (grp_symbol policy) (take n treaty_df)) = n" using n by simp
  have dom: "ttype (treaty_df ! n) = ''catxl'' \<Longrightarrow> \<exists>v. policy (tid (treaty_df ! n)) = Some v"
    using assms n by (metis domD nth_mem)
  show ?case
    unfolding upt_Suc_append [OF le0] fold_append comp_def ih
    using l dom
    by (auto simp add: grp_step_def d t list_update_append grp_symbol_def)
qed

text \<open>
  C9. For a policy that has a value for every \<open>catxl\<close> column, \<open>build_policy_grp\<close>
  returns a key with exactly one symbol per treaty, in the order of the catalog: the
  treaty's code, except at a \<open>catxl\<close> treaty whose policy value is 0 (the policy does not
  take part), where the symbol is \<open>'.'\<close>.
\<close>

theorem build_policy_grp_symbols:
  assumes "\<forall>t\<in>set treaty_df. ttype t = ''catxl'' \<longrightarrow> tid t \<in> dom policy"
  shows "\<exists>key. build_policy_grp policy treaty_df = Inr key
           \<and> length key = length treaty_df
           \<and> (\<forall>c<length treaty_df. key ! c =
                 (if ttype (treaty_df ! c) = ''catxl'' \<and> policy (tid (treaty_df ! c)) = Some 0
                  then CHR ''.'' else code (treaty_df ! c)))"
proof -
  have "build_policy_grp policy treaty_df = Inr (map (grp_symbol policy) treaty_df)"
    unfolding build_policy_grp_def using grp_fold_upt [OF assms, of "length treaty_df"] by simp
  then show ?thesis by (simp add: grp_symbol_def)
qed

theorem build_policy_grp_symbols_witness:
  "build_policy_grp [''p1'' \<mapsto> 3 / 10, ''c1'' \<mapsto> 0, ''c2'' \<mapsto> 1]
      [\<lparr>tid = ''p1'', ttype = ''prop'', deductible = 0, limit = 10, code = CHR ''A''\<rparr>,
       \<lparr>tid = ''c1'', ttype = ''catxl'', deductible = 10, limit = 50, code = CHR ''B''\<rparr>,
       \<lparr>tid = ''c2'', ttype = ''catxl'', deductible = 10, limit = 50, code = CHR ''C''\<rparr>]
   = Inr ''A.C''"
proof -
  let ?p = "[''p1'' \<mapsto> 3 / 10, ''c1'' \<mapsto> 0, ''c2'' \<mapsto> (1::real)]"
  let ?T = "[\<lparr>tid = ''p1'', ttype = ''prop'', deductible = 0, limit = 10, code = CHR ''A''\<rparr>,
       \<lparr>tid = ''c1'', ttype = ''catxl'', deductible = 10, limit = 50, code = CHR ''B''\<rparr>,
       \<lparr>tid = ''c2'', ttype = ''catxl'', deductible = 10, limit = 50, code = CHR ''C''\<rparr>]"
  have h: "\<forall>t\<in>set ?T. ttype t = ''catxl'' \<longrightarrow> tid t \<in> dom ?p" by simp
  obtain key where k: "build_policy_grp ?p ?T = Inr key" "length key = 3"
    and s: "\<forall>c<3. key ! c =
                 (if ttype (?T ! c) = ''catxl'' \<and> ?p (tid (?T ! c)) = Some 0
                  then CHR ''.'' else code (?T ! c))"
    using build_policy_grp_symbols [OF h] by auto
  have "key ! 0 = CHR ''A''" "key ! 1 = CHR ''.''" "key ! 2 = CHR ''C''"
    using s by (simp_all add: nth_Cons')
  then have "key = ''A.C''" using k(2)
    by (auto simp add: list_eq_iff_nth_eq nth_Cons' less_Suc_eq numeral_3_eq_3 numeral_2_eq_2)
  then show ?thesis using k(1) by simp
qed

subsection \<open>Properties of one level of \<open>clever_agg\<close>\<close>

lemma map2_map_same: "map2 F (map h xs) (map g xs) = map (\<lambda>x. F (h x) (g x)) xs"
  by (induction xs) auto

lemma set_column_map: "set_column (map h data) j (map g data) = map (\<lambda>row. (h row)[j := g row]) data"
  unfolding set_column_def by (rule map2_map_same)

lemma set_column_map_id: "set_column data j (map g data) = map (\<lambda>row. row[j := g row]) data"
  using set_column_map [of "\<lambda>row. row" data j g] by simp

lemma list_ex_map_False: "\<not> list_ex P (map f xs) \<Longrightarrow> x \<in> set xs \<Longrightarrow> \<not> P (f x)"
  by (auto simp add: list_ex_iff)

lemma agg_group_sentinel:
  "fst kd = CHR ''.'' # newkey \<Longrightarrow> agg_group treaty_df idx kd overdict = Inr ((newkey, snd kd), overdict)"
  by (simp add: agg_group_def)

lemma agg_group_closed:
  assumes "fst kd = c # newkey" and "c \<noteq> CHR ''.''" and "loc treaty_df c = Inr tr"
    and "idx ''retention'' = Some ir" and "idx [c] = Some ic"
    and "\<forall>row\<in>set (snd kd). ir < length row \<and> ic < length row"
  shows "agg_group treaty_df idx kd overdict =
           Inr ((newkey, map (row_step tr ir ic) (snd kd)),
                record_over c (group_overspill tr ir ic (snd kd)) overdict)"
proof -
  let ?data = "snd kd"
  have inr: "\<not> list_ex (\<lambda>row. length row \<le> ir) ?data"
    "\<not> list_ex (\<lambda>row. length row \<le> ic) ?data"
    using assms(6) by (auto simp add: list_ex_iff)
  let ?d = "deductible tr" and ?cap = "limit tr - deductible tr"
  have cr: "apply_treaty (map (\<lambda>row. row ! ic) ?data) (map (\<lambda>row. row ! ir) ?data) ?d ?cap =
      (map (\<lambda>row. split_ces ?d ?cap (row ! ic) (row ! ir)) ?data,
       map (\<lambda>row. split_ret ?d ?cap (row ! ir)) ?data)"
    by (simp add: apply_treaty_closed map2_map_same)
  show ?thesis
  proof (cases "ttype tr = ''catxl''")
    case True
    have "set_column (set_column ?data ir (map (\<lambda>row. split_ret ?d ?cap (row ! ir)) ?data)) ic
            (map (\<lambda>row. split_ces ?d ?cap (row ! ic) (row ! ir)) ?data)
          = map (row_step tr ir ic) ?data"
      by (simp add: set_column_map_id set_column_map row_step_def True)
    then show ?thesis using assms(1-5) inr True
      by (simp add: agg_group_def Let_def cr record_over_def group_overspill_def column_def comp_def)
  next
    case nc: False
    show ?thesis
    proof (cases "ttype tr = ''prop''")
      case False
      have "map (row_step tr ir ic) ?data = ?data"
        by (rule map_idI) (simp add: row_step_def nc False)
      then show ?thesis using assms(1-5) inr nc False
        by (simp add: agg_group_def Let_def record_over_def group_overspill_def)
    next
      case True
      let ?over = "map (\<lambda>x. x - ?cap) (column ?data ic)"
      show ?thesis
      proof (cases "list_ex (\<lambda>x. x > 0) ?over")
        case h: True
        have "set_column (set_column ?data ir
                 (map (\<lambda>row. if row ! ic - ?cap > 0 then row ! ir + (row ! ic - limit tr) else row ! ir) ?data))
                 ic (map (\<lambda>row. if row ! ic - ?cap > 0 then limit tr else row ! ic) ?data)
              = map (row_step tr ir ic) ?data"
          by (simp add: set_column_map_id set_column_map row_step_def True nc)
        then show ?thesis using assms(1-5) inr True nc h
          by (simp add: agg_group_def Let_def map2_map_same record_over_def group_overspill_def
              column_def comp_def)
      next
        case h: False
        have "row_step tr ir ic row = row" if "row \<in> set ?data" for row
          using list_ex_map_False [OF h [unfolded column_def map_map comp_def] that] True nc
          by (simp add: row_step_def)
        then have "map (row_step tr ir ic) ?data = ?data" by (simp add: map_idI)
        then show ?thesis using assms(1-5) inr True nc h
          by (simp add: agg_group_def Let_def record_over_def group_overspill_def column_def comp_def)
      qed
    qed
  qed
qed

lemma agg_group_success:
  assumes "agg_group treaty_df idx kd overdict = Inr r" and "fst kd = c # newkey" and "c \<noteq> CHR ''.''"
  shows "\<exists>tr ir ic. loc treaty_df c = Inr tr \<and> idx ''retention'' = Some ir \<and> idx [c] = Some ic
           \<and> (\<forall>row\<in>set (snd kd). ir < length row \<and> ic < length row)"
proof (cases "loc treaty_df c")
  case (Inl e)
  then show ?thesis using assms by (simp add: agg_group_def)
next
  case (Inr tr)
  show ?thesis
  proof (cases "idx ''retention''")
    case None
    then show ?thesis using assms Inr by (simp add: agg_group_def)
  next
    case (Some ir)
    show ?thesis
    proof (cases "list_ex (\<lambda>row. length row \<le> ir) (snd kd)")
      case True
      then show ?thesis using assms Inr Some by (simp add: agg_group_def)
    next
      case ir: False
      show ?thesis
      proof (cases "idx [c]")
        case None
        then show ?thesis using assms Inr Some ir by (simp add: agg_group_def)
      next
        case ic: (Some ic)
        show ?thesis
        proof (cases "list_ex (\<lambda>row. length row \<le> ic) (snd kd)")
          case True
          then show ?thesis using assms Inr Some ir ic by (simp add: agg_group_def)
        next
          case False
          then have "\<forall>row\<in>set (snd kd). ir < length row \<and> ic < length row"
            using ir by (auto simp add: list_ex_iff)
          then show ?thesis using Inr Some ic by simp
        qed
      qed
    qed
  qed
qed

lemma record_over_other: "c' \<noteq> c \<Longrightarrow> record_over c' v od (over_key c) = od (over_key c)"
  by (simp add: record_over_def over_key_def)

lemma agg_group_other:
  assumes "agg_group treaty_df idx kd overdict = Inr r" and "hd (fst kd) \<noteq> c"
  shows "snd r (over_key c) = overdict (over_key c)"
proof (cases "fst kd")
  case Nil
  then show ?thesis using assms by (simp add: agg_group_def)
next
  case (Cons c' newkey)
  then have ne: "c' \<noteq> c" using assms(2) by simp
  show ?thesis
  proof (cases "c' = CHR ''.''")
    case True
    then have "r = ((newkey, snd kd), overdict)"
      using assms(1) Cons agg_group_sentinel [of kd newkey treaty_df idx overdict] by simp
    then show ?thesis by simp
  next
    case False
    obtain tr ir ic where "loc treaty_df c' = Inr tr" "idx ''retention'' = Some ir" "idx [c'] = Some ic"
      "\<forall>row\<in>set (snd kd). ir < length row \<and> ic < length row"
      using agg_group_success [OF assms(1) Cons False] by blast
    then have "r = ((newkey, map (row_step tr ir ic) (snd kd)),
                record_over c' (group_overspill tr ir ic (snd kd)) overdict)"
      using agg_group_closed [OF Cons False, of treaty_df tr idx ir ic overdict] assms(1) by simp
    then show ?thesis using ne by (simp add: record_over_other)
  qed
qed

lemma agg_group_same:
  assumes "agg_group treaty_df idx kd overdict = Inr r" and "fst kd \<noteq> []" and "hd (fst kd) = c"
    and "c \<noteq> CHR ''.''" and "loc treaty_df c = Inr tr"
    and "idx ''retention'' = Some ir" and "idx [c] = Some ic"
  shows "snd r = record_over c (group_overspill tr ir ic (snd kd)) overdict"
proof -
  obtain newkey where k: "fst kd = c # newkey" using assms(2,3) by (cases "fst kd") auto
  have "\<forall>row\<in>set (snd kd). ir < length row \<and> ic < length row"
    using agg_group_success [OF assms(1) k assms(4)] assms(6,7) by auto
  then show ?thesis
    using agg_group_closed [OF k assms(4,5,6,7), of overdict] assms(1) by auto
qed

subsection \<open>Claims about one level of \<open>clever_agg\<close>\<close>

text \<open>
  C7. A group whose leading key symbol is the code of a proportional treaty (deductible
  0, as \<open>parse\<close> sets it for every \<open>prop\<close> treaty), with distinct indices for the
  retention and the treaty's cession, both columns of the matrix: the step succeeds and
  keeps the number of
  events; at an event whose cession exceeds the treaty's limit the cession becomes the
  limit and the excess is added to the retention; at any other event cession and
  retention are unchanged; no other column changes.
\<close>

theorem agg_group_prop_cap:
  assumes "fst kd = c # newkey" and "c \<noteq> CHR ''.''" and "loc treaty_df c = Inr tr"
    and "ttype tr = ''prop''" and "deductible tr = 0"
    and "idx ''retention'' = Some ir" and "idx [c] = Some ic" and "ir \<noteq> ic"
    and "\<forall>row\<in>set (snd kd). ir < length row \<and> ic < length row"
    and "e < length (snd kd)"
  shows "\<exists>data' overdict'.
           agg_group treaty_df idx kd overdict = Inr ((newkey, data'), overdict')
         \<and> length data' = length (snd kd)
         \<and> (snd kd ! e ! ic > limit tr \<longrightarrow>
               data' ! e ! ic = limit tr
             \<and> data' ! e ! ir = snd kd ! e ! ir + (snd kd ! e ! ic - limit tr))
         \<and> (snd kd ! e ! ic \<le> limit tr \<longrightarrow>
               data' ! e ! ic = snd kd ! e ! ic \<and> data' ! e ! ir = snd kd ! e ! ir)
         \<and> (\<forall>j. j \<noteq> ir \<and> j \<noteq> ic \<longrightarrow> data' ! e ! j = snd kd ! e ! j)"
proof -
  let ?data' = "map (row_step tr ir ic) (snd kd)"
  have a: "agg_group treaty_df idx kd overdict =
             Inr ((newkey, ?data'), record_over c (group_overspill tr ir ic (snd kd)) overdict)"
    using agg_group_closed [OF assms(1,2,3,6,7,9)] .
  have row: "?data' ! e = row_step tr ir ic (snd kd ! e)" using assms(10) by simp
  have len: "ir < length (snd kd ! e)" "ic < length (snd kd ! e)" using assms(9,10) by simp_all
  have "snd kd ! e ! ic > limit tr \<longrightarrow>
          ?data' ! e ! ic = limit tr \<and> ?data' ! e ! ir = snd kd ! e ! ir + (snd kd ! e ! ic - limit tr)"
    unfolding row using assms(4,5,8) len by (simp add: row_step_def)
  moreover have "snd kd ! e ! ic \<le> limit tr \<longrightarrow>
          ?data' ! e ! ic = snd kd ! e ! ic \<and> ?data' ! e ! ir = snd kd ! e ! ir"
    unfolding row using assms(4,5) by (simp add: row_step_def)
  moreover have "\<forall>j. j \<noteq> ir \<and> j \<noteq> ic \<longrightarrow> ?data' ! e ! j = snd kd ! e ! j"
    unfolding row using assms(4) by (simp add: row_step_def)
  ultimately show ?thesis using a by simp
qed

theorem agg_group_prop_cap_witness:
  "agg_group [\<lparr>tid = ''p1'', ttype = ''prop'', deductible = 0, limit = 40, code = CHR ''A''\<rparr>]
      [''retention'' \<mapsto> 0, ''claim'' \<mapsto> 1, ''A'' \<mapsto> 2]
      (''A'', [[50, 100, 50], [7, 10, 3]]) Map.empty
   = Inr (('''', [[60, 100, 40], [7, 10, 3]]), [over_key CHR ''A'' \<mapsto> [10, 0]])"
proof -
  let ?T = "[\<lparr>tid = ''p1'', ttype = ''prop'', deductible = 0, limit = 40, code = CHR ''A''\<rparr>]"
  let ?idx = "[''retention'' \<mapsto> 0::nat, ''claim'' \<mapsto> 1, ''A'' \<mapsto> 2]"
  let ?kd = "(''A'', [[50, 100, 50], [7, 10, 3::real]])"
  have e: "agg_group ?T ?idx ?kd Map.empty
     = Inr (('''', [[60, 100, 40], [7, 10, 3]]), [over_key CHR ''A'' \<mapsto> [10, 0]])"
    by (simp add: agg_group_def loc_def column_def set_column_def Let_def)
  have "\<exists>data' overdict'.
           agg_group ?T ?idx ?kd Map.empty = Inr (('''', data'), overdict')
         \<and> length data' = length (snd ?kd)
         \<and> (snd ?kd ! 0 ! 2 > limit (hd ?T) \<longrightarrow>
               data' ! 0 ! 2 = limit (hd ?T)
             \<and> data' ! 0 ! 0 = snd ?kd ! 0 ! 0 + (snd ?kd ! 0 ! 2 - limit (hd ?T)))
         \<and> (snd ?kd ! 0 ! 2 \<le> limit (hd ?T) \<longrightarrow>
               data' ! 0 ! 2 = snd ?kd ! 0 ! 2 \<and> data' ! 0 ! 0 = snd ?kd ! 0 ! 0)
         \<and> (\<forall>j. j \<noteq> 0 \<and> j \<noteq> 2 \<longrightarrow> data' ! 0 ! j = snd ?kd ! 0 ! j)"
    by (rule agg_group_prop_cap [where c = "CHR ''A''"]) (simp_all add: loc_def)
  then show ?thesis using e by simp
qed

text \<open>
  C5, as stated, fails. One policy, one \<open>catxl\<close> treaty with deductible 50 and limit 150,
  one event with retention 200: the engine returns retention 100 and cession 100, and
  it records the overspill 50 under \<open>over_A\<close>, not 0 (line 230:
  \<open>overspill = ret - deductible - capacity = 200 - 50 - 100\<close>).
\<close>

theorem clever_agg_catxl_counterexample:
  "clever_agg [(''A'', [[200, 200, 0]])]
      [\<lparr>tid = ''cat1'', ttype = ''catxl'', deductible = 50, limit = 150, code = CHR ''A''\<rparr>]
      [''retention'' \<mapsto> 0, ''claim'' \<mapsto> 1, ''A'' \<mapsto> 2] Map.empty
   = Inr ([[100, 200, 100]], [over_key CHR ''A'' \<mapsto> [50]])
   \<and> [over_key CHR ''A'' \<mapsto> [50 :: real]] (over_key CHR ''A'') \<noteq> Some [0]"
  by (simp add: clever_agg.simps agg_group_def loc_def column_def set_column_def
      apply_treaty_closed split_ces_def split_ret_def fast_agg2_def agg_sum_def Let_def)

text \<open>
  C5, amended. In that scenario, whatever the claim of the event and whatever
  \<open>overdict\<close> held before, the engine returns retention 100 and cession 100, and the
  overspill recorded for the treaty is 50.
\<close>

theorem clever_agg_catxl_scenario:
  "clever_agg [(''A'', [[200, cl, 0]])]
      [\<lparr>tid = nm, ttype = ''catxl'', deductible = 50, limit = 150, code = CHR ''A''\<rparr>]
      [''retention'' \<mapsto> 0, ''claim'' \<mapsto> 1, ''A'' \<mapsto> 2] overdict
   = Inr ([[100, cl, 100]], overdict(over_key CHR ''A'' \<mapsto> [50]))"
  by (simp add: clever_agg.simps agg_group_def loc_def column_def set_column_def
      apply_treaty_closed split_ces_def split_ret_def fast_agg2_def agg_sum_def Let_def)

text \<open>
  C4, as stated, fails. Two \<open>catxl\<close> treaties \<open>A\<close> (deductible 50, limit 150) and \<open>B\<close>,
  two groups \<open>A.\<close> and \<open>AB\<close>, two events. Under treaty \<open>A\<close> the first group has the
  overspill \<open>[30, 5]\<close> and the second \<open>[10, 20]\<close>. The element-wise maximum is
  \<open>[30, 20]\<close>; the engine records \<open>[10, 20]\<close>: line 241 assigns, so the second group's
  array replaces the first's.
\<close>

theorem clever_agg_overspill_counterexample:
  "clever_agg [(''A.'', [[180, 180, 0, 0], [155, 155, 0, 0]]),
               (''AB'', [[160, 160, 0, 0], [170, 170, 0, 0]])]
      [\<lparr>tid = ''cat1'', ttype = ''catxl'', deductible = 50, limit = 150, code = CHR ''A''\<rparr>,
       \<lparr>tid = ''cat2'', ttype = ''catxl'', deductible = 10, limit = 20, code = CHR ''B''\<rparr>]
      [''retention'' \<mapsto> 0, ''claim'' \<mapsto> 1, ''A'' \<mapsto> 2, ''B'' \<mapsto> 3] Map.empty
   = Inr ([[130, 340, 200, 10], [115, 325, 200, 10]],
          [over_key CHR ''A'' \<mapsto> [10, 20], over_key CHR ''B'' \<mapsto> [40, 50]])
   \<and> [10, 20] \<noteq> [max 30 10, max 5 (20 :: real)]"
  by (simp add: clever_agg.simps agg_group_def loc_def column_def set_column_def
      apply_treaty_closed split_ces_def split_ret_def fast_agg2_def agg_sum_def Let_def)

text \<open>
  C4, amended. After one level of the engine, the array recorded under
  \<open>'over_' + code\<close> is the positive part of the overspill of the last group, in the
  order of the loop, whose leading symbol is that code and whose overspill is positive
  at some event; if there is no such group the entry is what it was before the level.
\<close>

theorem agg_level_overspill:
  assumes "agg_level treaty_df idx kds overdict = Inr (new, overdict')"
    and "c \<noteq> CHR ''.''" and "loc treaty_df c = Inr tr"
    and "idx ''retention'' = Some ir" and "idx [c] = Some ic"
    and "hits = filter (\<lambda>kd. hd (fst kd) = c
                   \<and> list_ex (\<lambda>x. x > 0) (group_overspill tr ir ic (snd kd))) kds"
  shows "overdict' (over_key c) =
           (if hits = [] then overdict (over_key c)
            else Some (map (\<lambda>x. max x 0) (group_overspill tr ir ic (snd (last hits)))))"
  using assms(1,6)
proof (induction kds arbitrary: overdict new hits)
  case Nil
  then show ?case by simp
next
  case (Cons kd kds)
  let ?hit = "\<lambda>kd. hd (fst kd) = c \<and> list_ex (\<lambda>x. x > 0) (group_overspill tr ir ic (snd kd))"
  obtain r where r: "agg_group treaty_df idx kd overdict = Inr r"
    using Cons.prems(1) by (auto split: sum.splits)
  obtain rs where rs: "agg_level treaty_df idx kds (snd r) = Inr rs"
    using Cons.prems(1) r by (auto split: sum.splits)
  have od: "snd rs = overdict'" using Cons.prems(1) r rs by simp
  have ne: "fst kd \<noteq> []" using agg_group_key [OF r] by simp
  have ih: "overdict' (over_key c) =
           (if filter ?hit kds = [] then snd r (over_key c)
            else Some (map (\<lambda>x. max x 0) (group_overspill tr ir ic (snd (last (filter ?hit kds))))))"
    using Cons.IH [of "snd r" "fst rs" "filter ?hit kds"] rs od by (cases rs) auto
  show ?case
  proof (cases "hd (fst kd) = c")
    case False
    then have "snd r (over_key c) = overdict (over_key c)"
      using agg_group_other [OF r] by simp
    moreover have "hits = filter ?hit kds" using Cons.prems(2) False by simp
    ultimately show ?thesis using ih by simp
  next
    case True
    have s: "snd r = record_over c (group_overspill tr ir ic (snd kd)) overdict"
      using agg_group_same [OF r ne True assms(2,3,4,5)] .
    show ?thesis
    proof (cases "list_ex (\<lambda>x. x > 0) (group_overspill tr ir ic (snd kd))")
      case h: True
      then have "hits = kd # filter ?hit kds" using Cons.prems(2) True by simp
      moreover have "snd r (over_key c) = Some (map (\<lambda>x. max x 0) (group_overspill tr ir ic (snd kd)))"
        using s h by (simp add: record_over_def)
      ultimately show ?thesis using ih by simp
    next
      case h: False
      then have "hits = filter ?hit kds" using Cons.prems(2) by simp
      moreover have "snd r (over_key c) = overdict (over_key c)"
        using s h by (simp add: record_over_def)
      ultimately show ?thesis using ih by simp
    qed
  qed
qed

theorem agg_level_overspill_witness:
  "agg_level
      [\<lparr>tid = ''cat1'', ttype = ''catxl'', deductible = 50, limit = 150, code = CHR ''A''\<rparr>,
       \<lparr>tid = ''cat2'', ttype = ''catxl'', deductible = 10, limit = 20, code = CHR ''B''\<rparr>]
      [''retention'' \<mapsto> 0, ''claim'' \<mapsto> 1, ''A'' \<mapsto> 2, ''B'' \<mapsto> 3]
      [(''A.'', [[180, 180, 0, 0], [155, 155, 0, 0]]),
       (''AB'', [[160, 160, 0, 0], [170, 170, 0, 0]])] Map.empty
   = Inr ([(''.'', [[80, 180, 100, 0], [55, 155, 100, 0]]),
           (''B'', [[60, 160, 100, 0], [70, 170, 100, 0]])],
          [over_key CHR ''A'' \<mapsto> [10, 20]])
   \<and> [over_key CHR ''A'' \<mapsto> [10, 20 :: real]] (over_key CHR ''A'') = Some [10, 20]"
proof -
  let ?T = "[\<lparr>tid = ''cat1'', ttype = ''catxl'', deductible = 50, limit = 150, code = CHR ''A''\<rparr>,
             \<lparr>tid = ''cat2'', ttype = ''catxl'', deductible = 10, limit = 20, code = CHR ''B''\<rparr>]"
  let ?idx = "[''retention'' \<mapsto> 0::nat, ''claim'' \<mapsto> 1, ''A'' \<mapsto> 2, ''B'' \<mapsto> 3]"
  let ?g1 = "(''A.'', [[180, 180, 0, 0], [155, 155, 0, 0::real]])"
  let ?g2 = "(''AB'', [[160, 160, 0, 0], [170, 170, 0, 0::real]])"
  let ?od = "[over_key CHR ''A'' \<mapsto> [10, 20 :: real]]"
  have e: "agg_level ?T ?idx [?g1, ?g2] Map.empty
     = Inr ([(''.'', [[80, 180, 100, 0], [55, 155, 100, 0]]),
             (''B'', [[60, 160, 100, 0], [70, 170, 100, 0]])], ?od)"
    by (simp add: agg_group_def loc_def column_def set_column_def apply_treaty_closed
        split_ces_def split_ret_def Let_def)
  have l: "loc ?T CHR ''A'' = Inr (hd ?T)" by (simp add: loc_def)
  have h: "[?g1, ?g2] = filter (\<lambda>kd. hd (fst kd) = CHR ''A''
                   \<and> list_ex (\<lambda>x. x > 0) (group_overspill (hd ?T) 0 2 (snd kd))) [?g1, ?g2]"
    by (simp add: group_overspill_def)
  have "?od (over_key CHR ''A'') =
           (if [?g1, ?g2] = [] then Map.empty (over_key CHR ''A'')
            else Some (map (\<lambda>x. max x 0) (group_overspill (hd ?T) 0 2 (snd (last [?g1, ?g2])))))"
    by (rule agg_level_overspill [OF e _ l _ _ h]) simp_all
  then have "?od (over_key CHR ''A'') = Some [10, 20]" by (simp add: group_overspill_def)
  then show ?thesis using e by simp
qed

subsection \<open>The invariant of \<open>clever_agg\<close>\<close>

lemma sum_list_upd:
  "i < length xs \<Longrightarrow> sum_list (xs[i := v]) = sum_list xs - xs ! i + (v :: real)"
proof (induction xs arbitrary: i)
  case Nil
  then show ?case by simp
next
  case (Cons x xs)
  then show ?case by (cases i) auto
qed

lemma imbalance_update:
  assumes "2 \<le> ic" and "ic < length row"
  shows "imbalance (row[0 := a, ic := b]) = imbalance row + (a - row ! 0) + (b - row ! ic)"
proof -
  have l: "0 < length row" "1 < length row" using assms by linarith+
  have d: "drop 2 (row[0 := a, ic := b]) = (drop 2 row)[ic - 2 := b]"
    using assms by (simp add: drop_update_swap drop_update_cancel)
  have i: "ic - 2 < length (drop 2 row)" using assms by simp
  have "2 + (ic - 2) = ic" using assms by simp
  then have n: "(drop 2 row) ! (ic - 2) = row ! ic" using assms by (simp add: nth_drop del: One_nat_def)
  have "(row[0 := a, ic := b]) ! 0 = a" using assms l by simp
  moreover have "(row[0 := a, ic := b]) ! 1 = row ! 1" using assms l by simp
  ultimately show ?thesis unfolding imbalance_def d sum_list_upd [OF i] n by simp
qed

lemma row_step_length: "length (row_step tr ir ic row) = length row"
  by (simp add: row_step_def)

lemma row_step_other: "j \<noteq> ir \<Longrightarrow> j \<noteq> ic \<Longrightarrow> row_step tr ir ic row ! j = row ! j"
  by (simp add: row_step_def)

lemma row_step_imbalance:
  assumes "2 \<le> ic" and "ic < length row" and "ttype tr = ''catxl'' \<longrightarrow> row ! ic = 0"
  shows "imbalance (row_step tr 0 ic row) = imbalance row"
proof (cases "ttype tr = ''catxl''")
  case True
  then have z: "row ! ic = 0" using assms(3) by simp
  show ?thesis unfolding row_step_def using True z
    by (simp add: imbalance_update [OF assms(1,2)] split_ret_def split_ces_def)
next
  case False
  show ?thesis unfolding row_step_def using False
    by (simp add: imbalance_update [OF assms(1,2)])
qed

lemma mk_idx_nth:
  assumes "distinct cols" and "j < length cols"
  shows "mk_idx cols (cols ! j) = Some j"
proof -
  have d: "distinct (map fst (rev (zip cols [0..<length cols])))"
    using assms(1) by (simp add: rev_map [symmetric])
  have "(cols ! j, j) \<in> set (rev (zip cols [0..<length cols]))"
    using assms(2) by (auto simp add: set_zip)
  then show ?thesis unfolding mk_idx_def using d by (rule map_of_is_SomeI [rotated])
qed

lemma outcols_distinct: "distinct (map code treaty_df) \<Longrightarrow> distinct (outcols treaty_df)"
  by (auto simp add: outcols_def distinct_map inj_on_def)

lemma idx_retention:
  "distinct (map code treaty_df) \<Longrightarrow> mk_idx (outcols treaty_df) ''retention'' = Some 0"
  using mk_idx_nth [OF outcols_distinct, of treaty_df 0] by (simp add: outcols_def)

lemma idx_code:
  assumes "distinct (map code treaty_df)" and "j < length treaty_df"
  shows "mk_idx (outcols treaty_df) [code (treaty_df ! j)] = Some (2 + j)"
proof -
  have "outcols treaty_df ! (2 + j) = [code (treaty_df ! j)]"
    using assms(2) by (simp add: outcols_def)
  moreover have "2 + j < length (outcols treaty_df)" using assms(2) by (simp add: outcols_def)
  ultimately show ?thesis using mk_idx_nth [OF outcols_distinct [OF assms(1)], of "2 + j"] by simp
qed

lemma loc_nth:
  assumes "distinct (map code treaty_df)" and "j < length treaty_df"
  shows "loc treaty_df (code (treaty_df ! j)) = Inr (treaty_df ! j)"
proof -
  have "\<forall>i<j. code (treaty_df ! i) \<noteq> code (treaty_df ! j)"
    using assms by (auto simp add: distinct_conv_nth)
  then have "find (\<lambda>t. code t = code (treaty_df ! j)) treaty_df = Some (treaty_df ! j)"
    using assms(2) by (auto simp add: find_Some_iff)
  then show ?thesis by (simp add: loc_def)
qed

text \<open>One level in closed form, when every leading symbol is the sentinel or one code.\<close>

lemma agg_level_closed:
  assumes "\<forall>kd\<in>set kds. fst kd \<noteq> [] \<and> (hd (fst kd) = CHR ''.'' \<or> hd (fst kd) = c)"
    and "c = CHR ''.'' \<or> (loc treaty_df c = Inr tr \<and> idx ''retention'' = Some ir \<and> idx [c] = Some ic)"
    and "\<forall>kd\<in>set kds. \<forall>row\<in>set (snd kd). ir < length row \<and> ic < length row"
  shows "\<exists>od'. agg_level treaty_df idx kds overdict =
           Inr (map (\<lambda>kd. (tl (fst kd), if hd (fst kd) = CHR ''.'' then snd kd
                                          else map (row_step tr ir ic) (snd kd))) kds, od')"
  using assms(1,3)
proof (induction kds arbitrary: overdict)
  case Nil
  show ?case by simp
next
  case (Cons kd kds)
  obtain s k' where k: "fst kd = s # k'" using Cons.prems(1) by (cases "fst kd") auto
  have rng: "\<forall>row\<in>set (snd kd). ir < length row \<and> ic < length row" using Cons.prems(2) by simp
  have "\<exists>od1. agg_group treaty_df idx kd overdict =
          Inr ((tl (fst kd), if hd (fst kd) = CHR ''.'' then snd kd
                             else map (row_step tr ir ic) (snd kd)), od1)"
  proof (cases "s = CHR ''.''")
    case True
    then show ?thesis using agg_group_sentinel [of kd k' treaty_df idx overdict] k by simp
  next
    case False
    then have sc: "s = c" using Cons.prems(1) k by simp
    then have "loc treaty_df c = Inr tr \<and> idx ''retention'' = Some ir \<and> idx [c] = Some ic"
      using assms(2) False by simp
    then show ?thesis
      using agg_group_closed [of kd c k' treaty_df tr idx ir ic overdict] k sc False rng by simp
  qed
  then obtain od1 where g: "agg_group treaty_df idx kd overdict =
          Inr ((tl (fst kd), if hd (fst kd) = CHR ''.'' then snd kd
                             else map (row_step tr ir ic) (snd kd)), od1)" by blast
  obtain od' where "agg_level treaty_df idx kds od1 =
           Inr (map (\<lambda>kd. (tl (fst kd), if hd (fst kd) = CHR ''.'' then snd kd
                                          else map (row_step tr ir ic) (snd kd))) kds, od')"
    using Cons.IH [of od1] Cons.prems by auto
  then show ?case using g by simp
qed

lemma shaped_row: "shaped E C d \<Longrightarrow> e < E \<Longrightarrow> length (d ! e) = C"
  by (simp add: shaped_def list_all_length)

lemma agg_sum_shaped:
  assumes "ms \<noteq> []" and "\<forall>m\<in>set ms. shaped E C m"
  shows "shaped E C (agg_sum ms)"
proof -
  have h: "shaped E C (hd ms)" using assms by simp
  then have l: "length (hd ms) = E" by (simp add: shaped_def)
  show ?thesis
  proof (cases "E = 0")
    case True
    then show ?thesis using l by (simp add: agg_sum_def shaped_def)
  next
    case False
    then have "hd ms \<noteq> []" using l by auto
    then have "hd (hd ms) = hd ms ! 0" by (simp add: hd_conv_nth)
    then have "length (hd (hd ms)) = C" using shaped_row [OF h, of 0] False by simp
    then show ?thesis using l by (simp add: agg_sum_def shaped_def list_all_iff)
  qed
qed

lemma agg_sum_row:
  assumes "ms \<noteq> []" and "\<forall>m\<in>set ms. shaped E C m" and "e < E"
  shows "agg_sum ms ! e = map (\<lambda>c. sum_list (map (\<lambda>m. m ! e ! c) ms)) [0..<C]"
proof -
  have h: "shaped E C (hd ms)" using assms by simp
  then have l: "length (hd ms) = E" by (simp add: shaped_def)
  then have "hd ms \<noteq> []" using assms(3) by auto
  then have "hd (hd ms) = hd ms ! 0" by (simp add: hd_conv_nth)
  then have "length (hd (hd ms)) = C" using shaped_row [OF h, of 0] assms(3) by simp
  then show ?thesis using l assms(3) by (simp add: agg_sum_def)
qed

lemma sum_list_swap:
  "sum_list (map (\<lambda>c. sum_list (map (\<lambda>m. g m c) ms)) cs) =
   sum_list (map (\<lambda>m. sum_list (map (g m) cs)) ms :: real list)"
  by (induction ms) (simp_all add: sum_list_addf)

lemma drop2_nth: "drop 2 row = map (\<lambda>c. row ! c) [2..<length row]"
proof -
  have "drop 2 (map (\<lambda>c. row ! c) [0..<length row]) = map (\<lambda>c. row ! c) (drop 2 [0..<length row])"
    by (rule drop_map)
  then show ?thesis by (simp add: map_nth drop_upt numeral_2_eq_2)
qed

lemma agg_sum_imbalance:
  assumes "ms \<noteq> []" and "\<forall>m\<in>set ms. shaped E C m" and "e < E" and "2 \<le> C"
  shows "imbalance (agg_sum ms ! e) = sum_list (map (\<lambda>m. imbalance (m ! e)) ms)"
proof -
  let ?f = "\<lambda>c. sum_list (map (\<lambda>m. m ! e ! c) ms)"
  have r: "agg_sum ms ! e = map ?f [0..<C]" using agg_sum_row [OF assms(1,2,3)] .
  have d: "drop 2 (map ?f [0..<C]) = map ?f [2..<C]"
    by (simp add: drop_map drop_upt numeral_2_eq_2)
  have len: "length (m ! e) = C" if "m \<in> set ms" for m
    using assms(2,3) that shaped_row by blast
  have "sum_list (map ?f [2..<C]) = sum_list (map (\<lambda>m. sum_list (map (\<lambda>c. m ! e ! c) [2..<C])) ms)"
    by (rule sum_list_swap)
  also have "\<dots> = sum_list (map (\<lambda>m. sum_list (drop 2 (m ! e))) ms)"
  proof -
    have mm: "map (\<lambda>m. sum_list (map (\<lambda>c. m ! e ! c) [2..<C])) ms
          = map (\<lambda>m. sum_list (drop 2 (m ! e))) ms"
      using len by (intro map_cong refl) (simp add: drop2_nth)
    show ?thesis unfolding mm by (rule refl)
  qed
  finally have s: "sum_list (map ?f [2..<C]) = sum_list (map (\<lambda>m. sum_list (drop 2 (m ! e))) ms)" .
  have z: "map ?f [0..<C] ! 0 = ?f 0" "map ?f [0..<C] ! 1 = ?f 1" using assms(4) by simp_all
  show ?thesis unfolding r imbalance_def d s z
    by (simp add: sum_list_addf sum_list_subtractf)
qed

lemma agg_sum_nth:
  assumes "ms \<noteq> []" and "\<forall>m\<in>set ms. shaped E C m" and "e < E" and "c < C"
  shows "agg_sum ms ! e ! c = sum_list (map (\<lambda>m. m ! e ! c) ms)"
  using agg_sum_row [OF assms(1,2,3)] assms(4) by simp

lemma sum_list_pick:
  "distinct us \<Longrightarrow> a \<in> set us \<Longrightarrow> sum_list (map (\<lambda>u. if a = u then v else 0) us) = (v :: real)"
proof (induction us)
  case Nil
  then show ?case by simp
next
  case (Cons u us)
  show ?case
  proof (cases "a = u")
    case True
    then have "a \<notin> set us" using Cons.prems by simp
    then have m: "map (\<lambda>u. if a = u then v else 0) us = map (\<lambda>u. 0) us"
      by (intro map_cong refl) auto
    have "sum_list (map (\<lambda>u. if a = u then v else 0) us) = 0" unfolding m by simp
    then show ?thesis using True by simp
  next
    case False
    then show ?thesis using Cons by simp
  qed
qed

lemma sum_list_partition:
  "distinct us \<Longrightarrow> fst ` set xs \<subseteq> set us \<Longrightarrow>
   sum_list (map (\<lambda>u. sum_list (map f (filter (\<lambda>tv. fst tv = u) xs))) us) =
   sum_list (map f xs :: real list)"
proof (induction xs)
  case Nil
  then show ?case by simp
next
  case (Cons x xs)
  have m: "map (\<lambda>u. sum_list (map f (filter (\<lambda>tv. fst tv = u) (x # xs)))) us
        = map (\<lambda>u. (if fst x = u then f x else 0) + sum_list (map f (filter (\<lambda>tv. fst tv = u) xs))) us"
    by (intro map_cong refl) simp
  have "sum_list (map (\<lambda>u. sum_list (map f (filter (\<lambda>tv. fst tv = u) (x # xs)))) us)
     = sum_list (map (\<lambda>u. if fst x = u then f x else 0) us)
       + sum_list (map (\<lambda>u. sum_list (map f (filter (\<lambda>tv. fst tv = u) xs))) us)"
    unfolding m by (rule sum_list_addf)
  also have "\<dots> = f x + sum_list (map f xs)"
    using Cons sum_list_pick [of us "fst x" "f x"] by simp
  finally show ?case by simp
qed

lemma fast_agg2_pairs:
  "new \<noteq> [] \<Longrightarrow> fast_agg2 (map fst new) (map snd new) =
     Inr (map (\<lambda>u. (u, agg_sum (map snd (filter (\<lambda>tv. fst tv = u) new))))
              (sort (remdups (map fst new))))"
  by (simp add: fast_agg2_def zip_map_fst_snd)

lemma group_members:
  assumes "u \<in> set (map fst new)" and "\<forall>n\<in>set new. shaped E C (snd n)"
  shows "map snd (filter (\<lambda>tv. fst tv = u) new) \<noteq> []"
    and "\<forall>m\<in>set (map snd (filter (\<lambda>tv. fst tv = u) new)). shaped E C m"
proof -
  obtain n where "n \<in> set new" "fst n = u" using assms(1) by auto
  then have "n \<in> set (filter (\<lambda>tv. fst tv = u) new)" by simp
  then show "map snd (filter (\<lambda>tv. fst tv = u) new) \<noteq> []" by (auto simp add: filter_empty_conv)
  show "\<forall>m\<in>set (map snd (filter (\<lambda>tv. fst tv = u) new)). shaped E C m" using assms(2) by auto
qed

lemma fast_agg2_sum:
  assumes "\<forall>n\<in>set new. shaped E C (snd n)"
    and "\<And>ms. ms \<noteq> [] \<Longrightarrow> \<forall>m\<in>set ms. shaped E C m \<Longrightarrow> q (agg_sum ms) = sum_list (map q ms)"
  shows "sum_list (map (\<lambda>a. q (snd a))
            (map (\<lambda>u. (u, agg_sum (map snd (filter (\<lambda>tv. fst tv = u) new))))
                 (sort (remdups (map fst new)))))
         = sum_list (map (\<lambda>n. q (snd n)) new :: real list)"
proof -
  let ?us = "sort (remdups (map fst new))"
  have mm: "map (\<lambda>u. q (agg_sum (map snd (filter (\<lambda>tv. fst tv = u) new)))) ?us
        = map (\<lambda>u. sum_list (map (\<lambda>n. q (snd n)) (filter (\<lambda>tv. fst tv = u) new))) ?us"
  proof (rule map_cong [OF refl])
    fix u assume "u \<in> set ?us"
    then have u: "u \<in> set (map fst new)" by simp
    show "q (agg_sum (map snd (filter (\<lambda>tv. fst tv = u) new)))
          = sum_list (map (\<lambda>n. q (snd n)) (filter (\<lambda>tv. fst tv = u) new))"
      using assms(2) [OF group_members [OF u assms(1)]] by (simp add: comp_def)
  qed
  have "sum_list (map (\<lambda>a. q (snd a))
            (map (\<lambda>u. (u, agg_sum (map snd (filter (\<lambda>tv. fst tv = u) new)))) ?us))
      = sum_list (map (\<lambda>u. q (agg_sum (map snd (filter (\<lambda>tv. fst tv = u) new)))) ?us)"
    by (simp add: comp_def)
  also have "\<dots>
      = sum_list (map (\<lambda>u. sum_list (map (\<lambda>n. q (snd n)) (filter (\<lambda>tv. fst tv = u) new))) ?us)"
    unfolding mm by (rule refl)
  also have "\<dots> = sum_list (map (\<lambda>n. q (snd n)) new)"
    by (rule sum_list_partition) auto
  finally show ?thesis .
qed

lemma cat_zero_nth:
  "cat_zero ts l d \<Longrightarrow> j < length ts \<Longrightarrow> ttype (ts ! j) = ''catxl'' \<Longrightarrow> row \<in> set d \<Longrightarrow>
   row ! (2 + l + j) = 0"
  by (simp add: cat_zero_def list_all_iff)

lemma cat_zeroI:
  "(\<And>j row. j < length ts \<Longrightarrow> ttype (ts ! j) = ''catxl'' \<Longrightarrow> row \<in> set d \<Longrightarrow>
      row ! (2 + l + j) = 0) \<Longrightarrow> cat_zero ts l d"
  by (simp add: cat_zero_def list_all_iff)

lemma shaped_mem: "shaped E C d \<Longrightarrow> row \<in> set d \<Longrightarrow> length row = C"
  by (simp add: shaped_def list_all_iff)

lemma key_ok_Cons:
  assumes "key_ok (t # ts) k"
  shows "k \<noteq> []" and "hd k = CHR ''.'' \<or> hd k = code t" and "key_ok ts (tl k)"
  using assms by (auto simp add: key_ok_def list_all2_Cons2)

lemma next_group_shaped:
  "shaped E C (snd kd) \<Longrightarrow> shaped E C (snd (next_group t ic kd))"
  by (simp add: next_group_def shaped_def list_all_iff row_step_length)

lemma next_group_row:
  assumes "shaped E C (snd kd)" and "e < E"
  shows "snd (next_group t ic kd) ! e =
           (if hd (fst kd) = CHR ''.'' then snd kd ! e else row_step t 0 ic (snd kd ! e))"
  using assms by (simp add: next_group_def shaped_def)

lemma next_group_cat_zero:
  assumes "shaped E (2 + l + length (t # ts)) (snd kd)" and "cat_zero (t # ts) l (snd kd)"
  shows "cat_zero ts (Suc l) (snd (next_group t (2 + l) kd))"
proof (rule cat_zeroI)
  fix j row
  assume j: "j < length ts" and c: "ttype (ts ! j) = ''catxl''"
    and r: "row \<in> set (snd (next_group t (2 + l) kd))"
  have z: "row' ! (2 + l + Suc j) = 0" if "row' \<in> set (snd kd)" for row'
    using cat_zero_nth [OF assms(2), of "Suc j" row'] j c that by simp
  show "row ! (2 + Suc l + j) = 0"
  proof (cases "hd (fst kd) = CHR ''.''")
    case True
    then show ?thesis using r z by (simp add: next_group_def)
  next
    case False
    then obtain row' where "row' \<in> set (snd kd)" "row = row_step t 0 (2 + l) row'"
      using r by (auto simp add: next_group_def)
    then show ?thesis using z [of row'] by (simp add: row_step_other)
  qed
qed

lemma next_group_imbalance:
  assumes "shaped E (2 + l + length (t # ts)) (snd kd)" and "cat_zero (t # ts) l (snd kd)"
    and "e < E"
  shows "imbalance (snd (next_group t (2 + l) kd) ! e) = imbalance (snd kd ! e)"
    and "snd (next_group t (2 + l) kd) ! e ! 1 = snd kd ! e ! 1"
proof -
  let ?row = "snd kd ! e"
  have mem: "?row \<in> set (snd kd)" using assms(1,3) by (simp add: shaped_def)
  have len: "length ?row = 2 + l + length (t # ts)" using shaped_mem [OF assms(1) mem] .
  have z: "ttype t = ''catxl'' \<longrightarrow> ?row ! (2 + l) = 0"
    using cat_zero_nth [OF assms(2), of 0 ?row] mem by simp
  have "imbalance (row_step t 0 (2 + l) ?row) = imbalance ?row"
    by (rule row_step_imbalance) (use len z in simp_all)
  then show "imbalance (snd (next_group t (2 + l) kd) ! e) = imbalance (snd kd ! e)"
    by (simp add: next_group_row [OF assms(1,3)])
  show "snd (next_group t (2 + l) kd) ! e ! 1 = snd kd ! e ! 1"
    by (simp add: next_group_row [OF assms(1,3)] row_step_other)
qed

lemma agg_sum_cat_zero:
  assumes "ms \<noteq> []" and "\<forall>m\<in>set ms. shaped E (2 + l + length ts) m"
    and "\<forall>m\<in>set ms. cat_zero ts l m"
  shows "cat_zero ts l (agg_sum ms)"
proof (rule cat_zeroI)
  fix j row
  assume j: "j < length ts" and c: "ttype (ts ! j) = ''catxl''" and r: "row \<in> set (agg_sum ms)"
  have sh: "shaped E (2 + l + length ts) (agg_sum ms)" using agg_sum_shaped [OF assms(1,2)] .
  obtain e where e: "e < E" "row = agg_sum ms ! e"
    using r sh by (auto simp add: in_set_conv_nth shaped_def)
  have "m ! e ! (2 + l + j) = 0" if "m \<in> set ms" for m
  proof -
    have "m ! e \<in> set m" using assms(2) that e(1) by (simp add: shaped_def)
    then show ?thesis using cat_zero_nth [of ts l m j "m ! e"] assms(3) that j c by simp
  qed
  then have mz: "map (\<lambda>m. m ! e ! (2 + l + j)) ms = map (\<lambda>m. 0) ms" by (intro map_cong refl)
  have "sum_list (map (\<lambda>m. m ! e ! (2 + l + j)) ms) = 0" unfolding mz by simp
  then show "row ! (2 + l + j) = 0"
    using agg_sum_nth [OF assms(1,2) e(1), of "2 + l + j"] j e(2) by simp
qed

lemma wf_groups_mem:
  assumes "wf_groups E ts l kds" and "kd \<in> set kds"
  shows "key_ok ts (fst kd)" and "shaped E (2 + l + length ts) (snd kd)"
    and "cat_zero ts l (snd kd)"
  using assms by (simp_all add: wf_groups_def list_all_iff)

text \<open>One level and the re-aggregation after it keep the groups well formed.\<close>

lemma wf_groups_step:
  assumes wf: "wf_groups E (t # ts) l kds"
  defines "new \<equiv> map (next_group t (2 + l)) kds"
  defines "aggs \<equiv> map (\<lambda>u. (u, agg_sum (map snd (filter (\<lambda>tv. fst tv = u) new))))
                      (sort (remdups (map fst new)))"
  shows "wf_groups E ts (Suc l) aggs"
proof -
  have ne: "kds \<noteq> []" using wf by (simp add: wf_groups_def)
  then have nne: "new \<noteq> []" by (simp add: new_def)
  have C: "2 + l + length (t # ts) = 2 + Suc l + length ts" by simp
  have new_props: "key_ok ts (fst n) \<and> shaped E (2 + Suc l + length ts) (snd n)
                   \<and> cat_zero ts (Suc l) (snd n)" if "n \<in> set new" for n
  proof -
    have "n \<in> next_group t (2 + l) ` set kds" using that unfolding new_def set_map .
    then obtain kd where kd: "kd \<in> set kds" "n = next_group t (2 + l) kd" by (rule imageE)
    note w = wf_groups_mem [OF wf kd(1)]
    have "key_ok ts (fst n)" using key_ok_Cons(3) [OF w(1)] kd(2) by (simp add: next_group_def)
    moreover have "shaped E (2 + Suc l + length ts) (snd n)"
      using next_group_shaped [OF w(2)] kd(2) C by simp
    moreover have "cat_zero ts (Suc l) (snd n)"
      using next_group_cat_zero [OF w(2,3)] kd(2) by simp
    ultimately show ?thesis by simp
  qed
  have "set (sort (remdups (map fst new))) \<noteq> {}" using nne by simp
  then have "sort (remdups (map fst new)) \<noteq> []" by (metis set_empty)
  then have a1: "aggs \<noteq> []" by (simp add: aggs_def)
  have a2: "distinct (map fst aggs)" by (simp add: aggs_def comp_def)
  have a3: "key_ok ts (fst a) \<and> shaped E (2 + Suc l + length ts) (snd a)
            \<and> cat_zero ts (Suc l) (snd a)" if an: "a \<in> set aggs" for a
  proof -
    obtain u where u: "u \<in> set (map fst new)"
      and a: "a = (u, agg_sum (map snd (filter (\<lambda>tv. fst tv = u) new)))"
      using an by (auto simp add: aggs_def)
    let ?ms = "map snd (filter (\<lambda>tv. fst tv = u) new)"
    have sh: "\<forall>n\<in>set new. shaped E (2 + Suc l + length ts) (snd n)" using new_props by simp
    note g = group_members [OF u sh]
    have cz: "\<forall>m\<in>set ?ms. cat_zero ts (Suc l) m" using new_props by auto
    have "key_ok ts u" using u new_props by auto
    moreover have "shaped E (2 + Suc l + length ts) (agg_sum ?ms)" using agg_sum_shaped [OF g] .
    moreover have "cat_zero ts (Suc l) (agg_sum ?ms)" using agg_sum_cat_zero [OF g cz] .
    ultimately show ?thesis using a by simp
  qed
  show ?thesis unfolding wf_groups_def using a1 a2 a3 by (simp add: list_all_iff)
qed

text \<open>One level and the re-aggregation after it keep the sums over the groups.\<close>

lemma wf_groups_step_sums:
  assumes wf: "wf_groups E (t # ts) l kds" and e: "e < E"
  defines "new \<equiv> map (next_group t (2 + l)) kds"
  defines "aggs \<equiv> map (\<lambda>u. (u, agg_sum (map snd (filter (\<lambda>tv. fst tv = u) new))))
                      (sort (remdups (map fst new)))"
  shows "sum_list (map (\<lambda>a. imbalance (snd a ! e)) aggs)
           = sum_list (map (\<lambda>kd. imbalance (snd kd ! e)) kds)"
    and "sum_list (map (\<lambda>a. snd a ! e ! 1) aggs) = sum_list (map (\<lambda>kd. snd kd ! e ! 1) kds)"
proof -
  let ?C = "2 + l + length (t # ts)"
  have sh: "\<forall>n\<in>set new. shaped E ?C (snd n)"
    using wf_groups_mem(2) [OF wf] next_group_shaped by (auto simp add: new_def)
  have q1: "imbalance (agg_sum ms ! e) = sum_list (map (\<lambda>m. imbalance (m ! e)) ms)"
    if "ms \<noteq> []" "\<forall>m\<in>set ms. shaped E ?C m" for ms
    by (rule agg_sum_imbalance [OF that e]) simp
  have q2: "agg_sum ms ! e ! 1 = sum_list (map (\<lambda>m. m ! e ! 1) ms)"
    if "ms \<noteq> []" "\<forall>m\<in>set ms. shaped E ?C m" for ms
    by (rule agg_sum_nth [OF that e]) simp
  have "sum_list (map (\<lambda>a. imbalance (snd a ! e)) aggs)
          = sum_list (map (\<lambda>n. imbalance (snd n ! e)) new)"
    unfolding aggs_def
    by (rule fast_agg2_sum [OF sh, of "\<lambda>m. imbalance (m ! e)"]) (rule q1)
  also have "\<dots> = sum_list (map (\<lambda>kd. imbalance (snd (next_group t (2 + l) kd) ! e)) kds)"
    by (simp add: new_def comp_def)
  also have "map (\<lambda>kd. imbalance (snd (next_group t (2 + l) kd) ! e)) kds
               = map (\<lambda>kd. imbalance (snd kd ! e)) kds"
    by (rule map_cong [OF refl])
       (rule next_group_imbalance(1) [OF wf_groups_mem(2,3) [OF wf] e])
  finally show "sum_list (map (\<lambda>a. imbalance (snd a ! e)) aggs)
           = sum_list (map (\<lambda>kd. imbalance (snd kd ! e)) kds)" .
  have "sum_list (map (\<lambda>a. snd a ! e ! 1) aggs) = sum_list (map (\<lambda>n. snd n ! e ! 1) new)"
    unfolding aggs_def
    by (rule fast_agg2_sum [OF sh, of "\<lambda>m. m ! e ! 1"]) (rule q2)
  also have "\<dots> = sum_list (map (\<lambda>kd. snd (next_group t (2 + l) kd) ! e ! 1) kds)"
    by (simp add: new_def comp_def)
  also have "map (\<lambda>kd. snd (next_group t (2 + l) kd) ! e ! 1) kds = map (\<lambda>kd. snd kd ! e ! 1) kds"
    by (rule map_cong [OF refl])
       (rule next_group_imbalance(2) [OF wf_groups_mem(2,3) [OF wf] e])
  finally show "sum_list (map (\<lambda>a. snd a ! e ! 1) aggs) = sum_list (map (\<lambda>kd. snd kd ! e ! 1) kds)" .
qed

lemma clever_agg_terminal:
  "clever_agg [([], d)] treaty_df idx overdict = Inr (d, overdict)"
  by (subst clever_agg.simps) simp

lemma clever_agg_step:
  assumes wf: "wf_groups E (t # ts) (length pre) kds"
    and dist: "distinct (map code (pre @ t # ts))"
  defines "new \<equiv> map (next_group t (2 + length pre)) kds"
  defines "aggs \<equiv> map (\<lambda>u. (u, agg_sum (map snd (filter (\<lambda>tv. fst tv = u) new))))
                      (sort (remdups (map fst new)))"
  shows "\<exists>od1. clever_agg kds (pre @ t # ts) (mk_idx (outcols (pre @ t # ts))) overdict
              = clever_agg aggs (pre @ t # ts) (mk_idx (outcols (pre @ t # ts))) od1"
proof -
  let ?tdf = "pre @ t # ts"
  let ?idx = "mk_idx (outcols ?tdf)"
  have l: "length pre < length ?tdf" and nth: "?tdf ! length pre = t" by simp_all
  have loc: "loc ?tdf (code t) = Inr t" using loc_nth [OF dist l] nth by simp
  have ir: "?idx ''retention'' = Some 0" using idx_retention [OF dist] .
  have ic: "?idx [code t] = Some (2 + length pre)" using idx_code [OF dist l] nth by simp
  have keys: "\<forall>kd\<in>set kds. fst kd \<noteq> [] \<and> (hd (fst kd) = CHR ''.'' \<or> hd (fst kd) = code t)"
    using wf_groups_mem(1) [OF wf] key_ok_Cons(1,2) by blast
  have rng: "\<forall>kd\<in>set kds. \<forall>row\<in>set (snd kd). 0 < length row \<and> 2 + length pre < length row"
    using wf_groups_mem(2) [OF wf] shaped_mem by fastforce
  obtain od1 where lv: "agg_level ?tdf ?idx kds overdict = Inr (new, od1)"
    using agg_level_closed [OF keys _ rng, of ?tdf t ?idx overdict] loc ir ic
    unfolding new_def next_group_def by auto
  have ne: "kds \<noteq> []" using wf by (simp add: wf_groups_def)
  then have "hd kds \<in> set kds" by simp
  then have nt: "fst (hd kds) \<noteq> []" using keys by blast
  have nne: "new \<noteq> []" using ne by (simp add: new_def)
  have fa: "fast_agg2 (map fst new) (map snd new) = Inr aggs"
    unfolding aggs_def by (rule fast_agg2_pairs [OF nne])
  have "clever_agg kds ?tdf ?idx overdict = clever_agg aggs ?tdf ?idx od1"
    by (subst clever_agg.simps) (simp add: nt lv fa)
  then show ?thesis by blast
qed

lemma clever_agg_invariant:
  assumes "distinct (map code (pre @ ts))" and "wf_groups E ts (length pre) kds"
  shows "\<exists>res od'. clever_agg kds (pre @ ts) (mk_idx (outcols (pre @ ts))) overdict = Inr (res, od')
           \<and> shaped E (2 + length pre + length ts) res
           \<and> (\<forall>e<E. imbalance (res ! e) = sum_list (map (\<lambda>kd. imbalance (snd kd ! e)) kds)
                   \<and> res ! e ! 1 = sum_list (map (\<lambda>kd. snd kd ! e ! 1) kds))"
  using assms
proof (induction ts arbitrary: pre kds overdict)
  case Nil
  have ne: "kds \<noteq> []" and d: "distinct (map fst kds)" using Nil.prems(2) by (simp_all add: wf_groups_def)
  have k: "fst kd = []" if "kd \<in> set kds" for kd
    using wf_groups_mem(1) [OF Nil.prems(2) that] by (simp add: key_ok_def)
  obtain kd rest where c: "kds = kd # rest" using ne by (cases kds) auto
  have "rest = []"
  proof (cases rest)
    case Nil
    then show ?thesis .
  next
    case (Cons kd' rest')
    then have "fst kd = fst kd'" using k c by simp
    then show ?thesis using d c Cons by simp
  qed
  then have kds: "kds = [([], snd kd)]" using c k [of kd] by (cases kd) simp
  have "shaped E (2 + length pre + length ([] :: treaty list)) (snd kd)"
    using wf_groups_mem(2) [OF Nil.prems(2), of kd] c by simp
  then show ?case unfolding kds by (simp add: clever_agg_terminal)
next
  case (Cons t ts)
  let ?tdf = "pre @ t # ts"
  let ?new = "map (next_group t (2 + length pre)) kds"
  let ?aggs = "map (\<lambda>u. (u, agg_sum (map snd (filter (\<lambda>tv. fst tv = u) ?new))))
                      (sort (remdups (map fst ?new)))"
  obtain od1 where st: "clever_agg kds ?tdf (mk_idx (outcols ?tdf)) overdict
              = clever_agg ?aggs ?tdf (mk_idx (outcols ?tdf)) od1"
    using clever_agg_step [OF Cons.prems(2,1)] by blast
  have wf': "wf_groups E ts (length (pre @ [t])) ?aggs"
    using wf_groups_step [OF Cons.prems(2)] by simp
  have dist': "distinct (map code ((pre @ [t]) @ ts))" using Cons.prems(1) by simp
  obtain res od' where r: "clever_agg ?aggs ((pre @ [t]) @ ts) (mk_idx (outcols ((pre @ [t]) @ ts))) od1
         = Inr (res, od')"
    and sh: "shaped E (2 + length (pre @ [t]) + length ts) res"
    and s: "\<forall>e<E. imbalance (res ! e) = sum_list (map (\<lambda>kd. imbalance (snd kd ! e)) ?aggs)
                   \<and> res ! e ! 1 = sum_list (map (\<lambda>kd. snd kd ! e ! 1) ?aggs)"
    using Cons.IH [OF dist' wf', of od1] by blast
  have "clever_agg kds ?tdf (mk_idx (outcols ?tdf)) overdict = Inr (res, od')"
    using st r by simp
  moreover have "shaped E (2 + length pre + length (t # ts)) res" using sh by simp
  moreover have "\<forall>e<E. imbalance (res ! e) = sum_list (map (\<lambda>kd. imbalance (snd kd ! e)) kds)
                   \<and> res ! e ! 1 = sum_list (map (\<lambda>kd. snd kd ! e ! 1) kds)"
    using s wf_groups_step_sums [OF Cons.prems(2)] by simp
  ultimately show ?case by blast
qed

lemma agg_group_next:
  assumes dist: "distinct (map code (pre @ t # ts))" and k: "key_ok (t # ts) (fst kd)"
    and sh: "shaped E (2 + length pre + length (t # ts)) (snd kd)"
  shows "\<exists>od1. agg_group (pre @ t # ts) (mk_idx (outcols (pre @ t # ts))) kd overdict
               = Inr (next_group t (2 + length pre) kd, od1)"
proof -
  let ?tdf = "pre @ t # ts"
  let ?idx = "mk_idx (outcols ?tdf)"
  have l: "length pre < length ?tdf" and nth: "?tdf ! length pre = t" by simp_all
  have loc: "loc ?tdf (code t) = Inr t" using loc_nth [OF dist l] nth by simp
  have ir: "?idx ''retention'' = Some 0" using idx_retention [OF dist] .
  have ic: "?idx [code t] = Some (2 + length pre)" using idx_code [OF dist l] nth by simp
  have keys: "\<forall>kd\<in>set [kd]. fst kd \<noteq> [] \<and> (hd (fst kd) = CHR ''.'' \<or> hd (fst kd) = code t)"
    using key_ok_Cons(1,2) [OF k] by simp
  have rng: "\<forall>kd\<in>set [kd]. \<forall>row\<in>set (snd kd). 0 < length row \<and> 2 + length pre < length row"
    using shaped_mem [OF sh] by fastforce
  obtain od1 where "agg_level ?tdf ?idx [kd] overdict = Inr ([next_group t (2 + length pre) kd], od1)"
    using agg_level_closed [OF keys _ rng, of ?tdf t ?idx overdict] loc ir ic
    unfolding next_group_def by auto
  then have "agg_group ?tdf ?idx kd overdict = Inr (next_group t (2 + length pre) kd, od1)"
    by (cases "agg_group ?tdf ?idx kd overdict") (auto simp add: prod_eq_iff)
  then show ?thesis by blast
qed

subsection \<open>Properties of \<open>_by_event\<close>\<close>

text \<open>The keys that \<open>build_policy_grp\<close> returns have the form the engine expects.\<close>

lemma build_policy_grp_key_ok:
  assumes "\<forall>t\<in>set treaty_df. ttype t = ''catxl'' \<longrightarrow> tid t \<in> dom policy"
  shows "\<exists>key. build_policy_grp policy treaty_df = Inr key \<and> key_ok treaty_df key"
proof -
  have "build_policy_grp policy treaty_df = Inr (map (grp_symbol policy) treaty_df)"
    unfolding build_policy_grp_def using grp_fold_upt [OF assms, of "length treaty_df"] by simp
  moreover have "key_ok treaty_df (map (grp_symbol policy) treaty_df)"
    unfolding key_ok_def by (simp add: list_all2_map1 list_all2_same grp_symbol_def)
  ultimately show ?thesis by blast
qed

lemma get_cells_defined:
  "\<forall>r\<in>set rs. cell r col \<noteq> None \<Longrightarrow> \<exists>vs. get_cells rs col = Inr vs"
  by (induction rs) (auto split: option.splits sum.splits)

lemma get_columns_defined:
  "\<forall>col\<in>set cols. \<forall>r\<in>set rs. cell r col \<noteq> None \<Longrightarrow>
   \<exists>vss. get_columns rs cols = Inr vss \<and> length vss = length cols"
proof (induction cols)
  case Nil
  show ?case by simp
next
  case (Cons col cols)
  obtain vs where "get_cells rs col = Inr vs" using get_cells_defined [of rs col] Cons.prems by auto
  moreover obtain vss where "get_columns rs cols = Inr vss" "length vss = length cols"
    using Cons by auto
  ultimately show ?case by simp
qed

lemma catxl_last_index:
  assumes "catxl_last treaty_df" and "j < length treaty_df" and "ttype (treaty_df ! j) = ''catxl''"
  shows "length (filter (\<lambda>t. ttype t \<noteq> ''catxl'') treaty_df) \<le> j"
proof (rule ccontr)
  let ?A = "filter (\<lambda>t. ttype t \<noteq> ''catxl'') treaty_df"
  let ?B = "filter (\<lambda>t. ttype t = ''catxl'') treaty_df"
  assume "\<not> length ?A \<le> j"
  then have j: "j < length ?A" by simp
  have "treaty_df ! j = (?A @ ?B) ! j" using assms(1) unfolding catxl_last_def by simp
  then have "treaty_df ! j = ?A ! j" using j by (simp add: nth_append)
  moreover have "?A ! j \<in> set ?A" using j by (rule nth_mem)
  ultimately show False using assms(3) by simp
qed

lemma built_row:
  fixes filled :: "real list"
  assumes "filled \<noteq> []" and "length filled \<le> T + 1"
  defines "body \<equiv> filled @ replicate (T + 1 - length filled) 0"
  defines "r \<equiv> (hd body - sum_list (tl body)) # body"
  shows "length r = 2 + T" and "imbalance r = 0"
    and "\<And>j. length filled \<le> 1 + j \<Longrightarrow> j < T \<Longrightarrow> r ! (2 + j) = 0"
proof -
  have lb: "length body = T + 1" using assms(2) by (simp add: body_def)
  then show "length r = 2 + T" by (simp add: r_def)
  have ne: "body \<noteq> []" using assms(1) by (simp add: body_def)
  have "drop 2 r = tl body" by (simp add: r_def drop_Suc numeral_2_eq_2)
  moreover have "r ! 0 = hd body - sum_list (tl body)" by (simp add: r_def)
  moreover have "r ! 1 = hd body" using ne by (simp add: r_def hd_conv_nth)
  ultimately show "imbalance r = 0" by (simp add: imbalance_def)
  fix j assume j: "length filled \<le> 1 + j" "j < T"
  have "r ! (2 + j) = body ! (1 + j)" by (simp add: r_def)
  also have "\<dots> = replicate (T + 1 - length filled) 0 ! (1 + j - length filled)"
    using j by (simp add: body_def nth_append)
  also have "\<dots> = 0" using j by simp
  finally show "r ! (2 + j) = 0" .
qed

lemma group_matrix_wf:
  assumes "catxl_last treaty_df"
    and "\<forall>r\<in>set grp. cell r ''claim'' \<noteq> None
           \<and> (\<forall>t\<in>set treaty_df. ttype t \<noteq> ''catxl'' \<longrightarrow> cell r (tid t) \<noteq> None)"
  shows "\<exists>data. group_matrix eids treaty_df grp = Inr data
           \<and> shaped (length eids) (2 + length treaty_df) data
           \<and> cat_zero treaty_df 0 data
           \<and> (\<forall>r\<in>set data. imbalance r = 0)"
proof -
  let ?T = "length treaty_df"
  let ?noncat = "map tid (filter (\<lambda>t. ttype t \<noteq> ''catxl'') treaty_df)"
  have "\<forall>col\<in>set (''claim'' # ?noncat). \<forall>r\<in>set grp. cell r col \<noteq> None"
    using assms(2) by auto
  then obtain vss where vss: "get_columns grp (''claim'' # ?noncat) = Inr vss"
    and lv: "length vss = length (''claim'' # ?noncat)"
    using get_columns_defined by blast
  let ?filled = "\<lambda>eid. map (\<lambda>vs. event_sum grp vs eid) vss"
  let ?r = "\<lambda>eid. (hd (?filled eid @ replicate (?T + 1 - length (?filled eid)) 0)
                   - sum_list (tl (?filled eid @ replicate (?T + 1 - length (?filled eid)) 0)))
                  # (?filled eid @ replicate (?T + 1 - length (?filled eid)) 0)"
  have oc: "length (outcols treaty_df) - 1 = ?T + 1" by (simp add: outcols_def)
  have gm: "group_matrix eids treaty_df grp = Inr (map ?r eids)"
    unfolding group_matrix_def Let_def vss oc by simp
  have lf: "length (?filled eid) = 1 + length ?noncat" for eid using lv by simp
  have ne: "?filled eid \<noteq> []" for eid using lv by auto
  have le: "length (?filled eid) \<le> ?T + 1" for eid
    unfolding lf using length_filter_le [of "\<lambda>t. ttype t \<noteq> ''catxl''" treaty_df] by simp
  have len: "length (?r eid) = 2 + ?T" for eid using built_row(1) [OF ne le] .
  have imb: "imbalance (?r eid) = 0" for eid using built_row(2) [OF ne le] .
  have zero: "?r eid ! (2 + j) = 0" if "j < ?T" "ttype (treaty_df ! j) = ''catxl''" for eid j
  proof -
    have "length (filter (\<lambda>t. ttype t \<noteq> ''catxl'') treaty_df) \<le> j"
      using catxl_last_index [OF assms(1) that] .
    then have "length (?filled eid) \<le> 1 + j" unfolding lf by simp
    then show ?thesis using built_row(3) [OF ne le] that(1) by blast
  qed
  have "shaped (length eids) (2 + ?T) (map ?r eids)"
    unfolding shaped_def list_all_iff using len by simp
  moreover have "cat_zero treaty_df 0 (map ?r eids)"
  proof (rule cat_zeroI)
    fix j r assume j: "j < ?T" "ttype (treaty_df ! j) = ''catxl''" and r: "r \<in> set (map ?r eids)"
    obtain eid where "r = ?r eid" using r by auto
    then show "r ! (2 + 0 + j) = 0" using zero [OF j, of eid] by simp
  qed
  moreover have "\<forall>r\<in>set (map ?r eids). imbalance r = 0" using imb by auto
  ultimately show ?thesis using gm by blast
qed

lemma group_matrices_wf:
  assumes "catxl_last treaty_df"
    and "\<forall>r\<in>set rbp. cell r ''claim'' \<noteq> None
           \<and> (\<forall>t\<in>set treaty_df. ttype t \<noteq> ''catxl'' \<longrightarrow> cell r (tid t) \<noteq> None)"
  shows "\<exists>kds. group_matrices eids treaty_df rbp keys = Inr kds
           \<and> map fst kds = keys
           \<and> (\<forall>kd\<in>set kds. shaped (length eids) (2 + length treaty_df) (snd kd)
                    \<and> cat_zero treaty_df 0 (snd kd)
                    \<and> (\<forall>r\<in>set (snd kd). imbalance r = 0))"
proof (induction keys)
  case Nil
  show ?case by simp
next
  case (Cons key keys)
  let ?grp = "filter (\<lambda>r. policy_grp r = key) rbp"
  have "\<forall>r\<in>set ?grp. cell r ''claim'' \<noteq> None
           \<and> (\<forall>t\<in>set treaty_df. ttype t \<noteq> ''catxl'' \<longrightarrow> cell r (tid t) \<noteq> None)"
    using assms(2) by simp
  then obtain data where d: "group_matrix eids treaty_df ?grp = Inr data"
    "shaped (length eids) (2 + length treaty_df) data" "cat_zero treaty_df 0 data"
    "\<forall>r\<in>set data. imbalance r = 0"
    using group_matrix_wf [OF assms(1), of ?grp eids] by blast
  obtain kds where k: "group_matrices eids treaty_df rbp keys = Inr kds" "map fst kds = keys"
    "\<forall>kd\<in>set kds. shaped (length eids) (2 + length treaty_df) (snd kd)
                    \<and> cat_zero treaty_df 0 (snd kd) \<and> (\<forall>r\<in>set (snd kd). imbalance r = 0)"
    using Cons by blast
  have "group_matrices eids treaty_df rbp (key # keys) = Inr ((key, data) # kds)"
    using d(1) k(1) by simp
  then show ?case using d k by auto
qed

lemma sort_remdups_nonempty: "xs \<noteq> [] \<Longrightarrow> sort (remdups xs) \<noteq> ([] :: 'a :: linorder list)"
proof -
  assume "xs \<noteq> []"
  then have "set (sort (remdups xs)) \<noteq> {}" by simp
  then show ?thesis by (metis set_empty)
qed

lemma by_event_groups_wf:
  assumes "catxl_last treaty_df" and "wf_rbp treaty_df rbp"
  shows "\<exists>kds. group_matrices (sort (remdups (map event_id rbp))) treaty_df rbp
                  (sort (remdups (map policy_grp rbp))) = Inr kds
           \<and> wf_groups (length (sort (remdups (map event_id rbp)))) treaty_df 0 kds
           \<and> (\<forall>kd\<in>set kds. \<forall>r\<in>set (snd kd). imbalance r = 0)"
proof -
  let ?eids = "sort (remdups (map event_id rbp))"
  let ?keys = "sort (remdups (map policy_grp rbp))"
  have ne: "rbp \<noteq> []" using assms(2) by (simp add: wf_rbp_def)
  have rows: "\<forall>r\<in>set rbp. key_ok treaty_df (policy_grp r) \<and> cell r ''claim'' \<noteq> None
           \<and> (\<forall>t\<in>set treaty_df. ttype t \<noteq> ''catxl'' \<longrightarrow> cell r (tid t) \<noteq> None)"
    using assms(2) by (simp add: wf_rbp_def list_all_iff)
  then have cells: "\<forall>r\<in>set rbp. cell r ''claim'' \<noteq> None
           \<and> (\<forall>t\<in>set treaty_df. ttype t \<noteq> ''catxl'' \<longrightarrow> cell r (tid t) \<noteq> None)" by simp
  obtain kds where k: "group_matrices ?eids treaty_df rbp ?keys = Inr kds" "map fst kds = ?keys"
    "\<forall>kd\<in>set kds. shaped (length ?eids) (2 + length treaty_df) (snd kd)
                    \<and> cat_zero treaty_df 0 (snd kd) \<and> (\<forall>r\<in>set (snd kd). imbalance r = 0)"
    using group_matrices_wf [OF assms(1) cells, of ?eids ?keys] by blast
  have "?keys \<noteq> []" using ne sort_remdups_nonempty [of "map policy_grp rbp"] by simp
  then have k1: "kds \<noteq> []" using k(2) by auto
  have k2: "distinct (map fst kds)" unfolding k(2) by simp
  have k3: "key_ok treaty_df (fst kd)" if kd: "kd \<in> set kds" for kd
  proof -
    have "fst kd \<in> set (map fst kds)" using kd by simp
    then have "fst kd \<in> set (map policy_grp rbp)" unfolding k(2) by simp
    then show ?thesis using rows by auto
  qed
  have "wf_groups (length ?eids) treaty_df 0 kds"
    unfolding wf_groups_def list_all_iff using k1 k2 k3 k(3) by simp
  then show ?thesis using k(1,3) by blast
qed

text \<open>
  Where no \<open>catxl\<close> treaty precedes a treaty of another type, the columns of \<open>inpcols\<close>
  and of \<open>outcols\<close> agree: for a catalog with distinct codes and a non-empty frame as
  \<open>by_policy\<close> produces it, \<open>_by_event\<close> returns, with one row per event, and in every row
  cessions plus retention equal the claim exactly.
\<close>

lemma by_event_reconciled:
  assumes "distinct (map code treaty_df)" and "catxl_last treaty_df" and "wf_rbp treaty_df rbp"
  shows "\<exists>res overdict.
           by_event rbp treaty_df = Inr (sort (remdups (map event_id rbp)), res, overdict)
         \<and> shaped (length (sort (remdups (map event_id rbp)))) (2 + length treaty_df) res
         \<and> (\<forall>r\<in>set res. sum_list (drop 2 r) + r ! 0 = r ! 1)"
proof -
  let ?eids = "sort (remdups (map event_id rbp))"
  let ?E = "length ?eids"
  obtain kds where k: "group_matrices ?eids treaty_df rbp (sort (remdups (map policy_grp rbp))) = Inr kds"
    and wf: "wf_groups ?E treaty_df 0 kds"
    and z: "\<forall>kd\<in>set kds. \<forall>r\<in>set (snd kd). imbalance r = 0"
    using by_event_groups_wf [OF assms(2,3)] by blast
  obtain res od where c: "clever_agg kds treaty_df (mk_idx (outcols treaty_df)) Map.empty = Inr (res, od)"
    and sh: "shaped ?E (2 + length treaty_df) res"
    and s: "\<forall>e<?E. imbalance (res ! e) = sum_list (map (\<lambda>kd. imbalance (snd kd ! e)) kds)"
    using clever_agg_invariant [of "[]" treaty_df ?E kds Map.empty] assms(1) wf by auto
  have zero: "imbalance r = 0" if r: "r \<in> set res" for r
  proof -
    obtain e where e: "e < ?E" "r = res ! e" using r sh by (auto simp add: in_set_conv_nth shaped_def)
    have "imbalance (snd kd ! e) = 0" if kd: "kd \<in> set kds" for kd
    proof -
      have "shaped ?E (2 + 0 + length treaty_df) (snd kd)" using wf_groups_mem(2) [OF wf kd] .
      then have "snd kd ! e \<in> set (snd kd)" using e(1) by (simp add: shaped_def)
      then show ?thesis using z kd by blast
    qed
    then have m: "map (\<lambda>kd. imbalance (snd kd ! e)) kds = map (\<lambda>kd. 0) kds"
      by (intro map_cong refl)
    have "sum_list (map (\<lambda>kd. imbalance (snd kd ! e)) kds) = 0" unfolding m by simp
    then show ?thesis using s e by simp
  qed
  have eq: "sum_list (drop 2 r) + r ! 0 = r ! 1" if "r \<in> set res" for r
    using zero [OF that] by (simp add: imbalance_def)
  then have "list_all allclose_row res" by (simp add: list_all_iff allclose_row_def)
  then have "by_event rbp treaty_df = Inr (?eids, res, od)"
    using k c by (simp add: by_event_def Let_def)
  then show ?thesis using sh eq by blast
qed

text \<open>
  C1. After the engine returns, cessions plus retention are to equal the claim at every
  event, and \<open>_by_event\<close> checks it. The code breaks this for a catalog listing a \<open>catxl\<close>
  treaty before a proportional one (line 301 stores the columns of \<open>inpcols\<close> at their
  position in \<open>inpcols\<close>, the engine reads the layout of \<open>outcols\<close>). For one policy with
  a claim of 2000 and a proportional cession of 500, the result has cessions plus
  retention 1500 and the run stops with \<open>AssertionError\<close>, on a frame that is consistent.
  With a proportional cession of 0.0001 the result is off by \<open>1e-4\<close>, which the relative
  tolerance of the check lets through, and the table is returned. With the two treaties
  in the other order the first frame reconciles exactly.
\<close>

theorem by_event_misplaced_column:
  "by_event
      [\<lparr>event_id = 7, policy_grp = ''AB'',
        cell = [''claim'' \<mapsto> 2000, ''retention'' \<mapsto> 1500, ''cat1'' \<mapsto> 0,
                ''prop1'' \<mapsto> 500]\<rparr>]
      [\<lparr>tid = ''cat1'', ttype = ''catxl'', deductible = 100, limit = 400, code = CHR ''A''\<rparr>,
       \<lparr>tid = ''prop1'', ttype = ''prop'', deductible = 0, limit = 10 ^ 100, code = CHR ''B''\<rparr>]
   = Inl AssertionError
   \<and> by_event
      [\<lparr>event_id = 7, policy_grp = ''AB'',
        cell = [''claim'' \<mapsto> 2000, ''retention'' \<mapsto> 19999999 / 10000, ''cat1'' \<mapsto> 0,
                ''prop1'' \<mapsto> 1 / 10000]\<rparr>]
      [\<lparr>tid = ''cat1'', ttype = ''catxl'', deductible = 100, limit = 400, code = CHR ''A''\<rparr>,
       \<lparr>tid = ''prop1'', ttype = ''prop'', deductible = 0, limit = 10 ^ 100, code = CHR ''B''\<rparr>]
   = Inr ([7], [[16999999 / 10000, 2000, 300, 0]], [over_key CHR ''A'' \<mapsto> [15999999 / 10000]])
   \<and> \<not> \<bar>(300 + 0 + 16999999 / 10000) - 2000\<bar> \<le> (1 / 1000000 :: real)
   \<and> by_event
      [\<lparr>event_id = 7, policy_grp = ''AB'',
        cell = [''claim'' \<mapsto> 2000, ''retention'' \<mapsto> 1500, ''cat1'' \<mapsto> 0,
                ''prop1'' \<mapsto> 500]\<rparr>]
      [\<lparr>tid = ''prop1'', ttype = ''prop'', deductible = 0, limit = 10 ^ 100, code = CHR ''A''\<rparr>,
       \<lparr>tid = ''cat1'', ttype = ''catxl'', deductible = 100, limit = 400, code = CHR ''B''\<rparr>]
   = Inr ([7], [[1200, 2000, 500, 300]], [over_key CHR ''B'' \<mapsto> [1100]])"
  by (simp add: by_event_def group_matrix_def event_sum_def allclose_row_def
      clever_agg.simps agg_group_def loc_def column_def set_column_def
      apply_treaty_closed split_ces_def split_ret_def fast_agg2_def agg_sum_def Let_def
      mk_idx_def outcols_def upt_rec)

text \<open>
  The invariant of the engine. Take a catalog \<open>pre @ ts\<close> with distinct codes, \<open>idx\<close> as
  \<open>_by_event\<close> builds it, and the groups of the recursion level at which the treaties
  \<open>ts\<close> remain (\<open>pre = []\<close> is the engine's input): keys distinct and of the form
  \<open>build_policy_grp\<close> gives, matrices of \<open>E\<close> rows and \<open>2 + T\<close> columns, and the cession
  column of every remaining \<open>catxl\<close> treaty zero, as \<open>np.zeros\<close> leaves it. Then the engine
  returns a matrix of that shape in which, at every event, retention plus cessions minus
  claim is the sum of that quantity over the groups, and the claim is the sum of the
  groups' claims; and the step of each group at this level succeeds and leaves, at every
  event, that quantity and the claim unchanged.
\<close>

lemma clever_agg_reconciliation:
  assumes "distinct (map code (pre @ ts))" and "wf_groups E ts (length pre) kds"
    and "treaty_df = pre @ ts" and "idx = mk_idx (outcols treaty_df)"
  shows "(\<exists>res overdict'. clever_agg kds treaty_df idx overdict = Inr (res, overdict')
            \<and> shaped E (2 + length treaty_df) res
            \<and> (\<forall>e<E. imbalance (res ! e) = sum_list (map (\<lambda>kd. imbalance (snd kd ! e)) kds)
                    \<and> res ! e ! 1 = sum_list (map (\<lambda>kd. snd kd ! e ! 1) kds)))
       \<and> (\<forall>kd\<in>set kds. ts \<noteq> [] \<longrightarrow>
            (\<exists>r od1. agg_group treaty_df idx kd overdict = Inr (r, od1)
               \<and> (\<forall>e<E. imbalance (snd r ! e) = imbalance (snd kd ! e)
                       \<and> snd r ! e ! 1 = snd kd ! e ! 1)))"
proof -
  have a: "\<exists>res overdict'. clever_agg kds treaty_df idx overdict = Inr (res, overdict')
            \<and> shaped E (2 + length treaty_df) res
            \<and> (\<forall>e<E. imbalance (res ! e) = sum_list (map (\<lambda>kd. imbalance (snd kd ! e)) kds)
                    \<and> res ! e ! 1 = sum_list (map (\<lambda>kd. snd kd ! e ! 1) kds))"
    using clever_agg_invariant [OF assms(1,2), of overdict] assms(3,4) by simp
  have b: "\<exists>r od1. agg_group treaty_df idx kd overdict = Inr (r, od1)
               \<and> (\<forall>e<E. imbalance (snd r ! e) = imbalance (snd kd ! e)
                       \<and> snd r ! e ! 1 = snd kd ! e ! 1)"
    if kd: "kd \<in> set kds" and ne: "ts \<noteq> []" for kd
  proof -
    obtain t ts' where ts: "ts = t # ts'" using ne by (cases ts) auto
    note w = wf_groups_mem [OF assms(2) kd, unfolded ts]
    obtain od1 where "agg_group treaty_df idx kd overdict
               = Inr (next_group t (2 + length pre) kd, od1)"
      using agg_group_next [OF assms(1) [unfolded ts] w(1,2), of overdict] assms(3,4) ts by auto
    then show ?thesis using next_group_imbalance [OF w(2,3)] by auto
  qed
  show ?thesis using a b by blast
qed

text \<open>
  C10. The engine is to keep retention plus cessions minus claim, per event and summed
  over the groups, from its input to its output. The code breaks this on the matrix that
  lines 297-304 of \<open>_by_event\<close> build for a catalog listing a \<open>catxl\<close> treaty before a
  proportional one: line 301 stores the columns of \<open>inpcols\<close> at their position in
  \<open>inpcols\<close>, while the engine reads the layout of \<open>outcols\<close>, so the proportional cession
  500 of a claim of 2000 lands in the \<open>catxl\<close> column, and the \<open>catxl\<close> step overwrites it.
  The quantity is 0 on entry and -500 on return.
\<close>

theorem clever_agg_stale_cession:
  "group_matrices [7]
      [\<lparr>tid = ''cat1'', ttype = ''catxl'', deductible = 100, limit = 400, code = CHR ''A''\<rparr>,
       \<lparr>tid = ''prop1'', ttype = ''prop'', deductible = 0, limit = 10 ^ 100, code = CHR ''B''\<rparr>]
      [\<lparr>event_id = 7, policy_grp = ''AB'',
        cell = [''claim'' \<mapsto> 2000, ''retention'' \<mapsto> 1500, ''cat1'' \<mapsto> 0,
                ''prop1'' \<mapsto> 500]\<rparr>]
      [''AB'']
   = Inr [(''AB'', [[1500, 2000, 500, 0]])]
   \<and> clever_agg [(''AB'', [[1500, 2000, 500, 0]])]
      [\<lparr>tid = ''cat1'', ttype = ''catxl'', deductible = 100, limit = 400, code = CHR ''A''\<rparr>,
       \<lparr>tid = ''prop1'', ttype = ''prop'', deductible = 0, limit = 10 ^ 100, code = CHR ''B''\<rparr>]
      (mk_idx (outcols
        [\<lparr>tid = ''cat1'', ttype = ''catxl'', deductible = 100, limit = 400, code = CHR ''A''\<rparr>,
         \<lparr>tid = ''prop1'', ttype = ''prop'', deductible = 0, limit = 10 ^ 100, code = CHR ''B''\<rparr>]))
      Map.empty
   = Inr ([[1200, 2000, 300, 0]], [over_key CHR ''A'' \<mapsto> [1100]])
   \<and> imbalance [1500, 2000, 500, 0] = 0 \<and> imbalance [1200, 2000, 300, 0] = - 500"
  by (simp add: group_matrix_def event_sum_def clever_agg.simps agg_group_def loc_def column_def
      set_column_def apply_treaty_closed split_ces_def split_ret_def fast_agg2_def agg_sum_def
      Let_def mk_idx_def outcols_def imbalance_def upt_rec)

end
